theory Spec2Isabelle
  imports Complex_Main
begin

section \<open>Knob generator: the mesh engine of \<open>knob_lib.py\<close>\<close>

text \<open>
  The engine works on Python floats. They are modelled by the reals: \<open>math.cos\<close>,
  \<open>math.sin\<close>, \<open>math.tan\<close> and \<open>math.sqrt\<close> are the functions of the same name on
  \<^typ>\<open>real\<close>, comparisons are exact, and rounding, overflow and NaN are left out.
  The segment count is a \<^typ>\<open>nat\<close>: \<open>range(segments)\<close> is empty for every count
  that is not positive, so \<open>0\<close> stands for all of them.
  Every exception the code can raise on such inputs is a value of \<open>error\<close>.
\<close>

subsection \<open>Data\<close>

datatype error = IndexError | KeyError | TypeError | AttributeError | ZeroDivisionError

type_synonym point2 = "real \<times> real"
type_synonym point3 = "real \<times> real \<times> real"
type_synonym face = "nat \<times> nat \<times> nat"

text \<open>The two accumulators \<open>all_vertices\<close> and \<open>all_faces\<close>, threaded through the builder.\<close>

type_synonym mesh_state = "point3 list \<times> face list"

text \<open>A nut description is a Python dict from field names to numbers, or \<open>None\<close>.\<close>

type_synonym nut = "(string \<times> real) list"

record knob_params =
  knob_diameter :: real
  knob_height :: real
  knob_style :: string
  lobes :: real
  lobe_protrusion :: real
  ridges :: real
  top_fillet_radius :: real
  top_fillet_height :: real
  bottom_fillet_radius :: real
  bottom_fillet_height :: real
  is_dome :: bool
  boss_height :: real
  boss_diameter :: real
  recess_depth :: real
  recess_diameter :: real
  shaft_type :: string
  shaft_dia :: real
  hole_depth :: real
  through_hole :: bool
  nut_info :: "nut option"
  nut_location :: string
  segments :: nat

subsection \<open>Errors as values\<close>

fun bind_err :: "error + 'a \<Rightarrow> ('a \<Rightarrow> error + 'b) \<Rightarrow> error + 'b" where
  "bind_err (Inl e) f = Inl e"
| "bind_err (Inr x) f = f x"

fun map_err :: "('a \<Rightarrow> error + 'b) \<Rightarrow> 'a list \<Rightarrow> error + 'b list" where
  "map_err f [] = Inr []"
| "map_err f (x # xs) =
     bind_err (f x) (\<lambda>y. bind_err (map_err f xs) (\<lambda>ys. Inr (y # ys)))"

fun fold_err :: "('a \<Rightarrow> 's \<Rightarrow> error + 's) \<Rightarrow> 'a list \<Rightarrow> 's \<Rightarrow> error + 's" where
  "fold_err f [] s = Inr s"
| "fold_err f (x # xs) s = bind_err (f x s) (fold_err f xs)"

text \<open>Float division and float modulo raise on a zero divisor.\<close>

definition py_div :: "real \<Rightarrow> real \<Rightarrow> error + real" where
  "py_div a b = (if b = 0 then Inl ZeroDivisionError else Inr (a / b))"

definition py_mod :: "real \<Rightarrow> real \<Rightarrow> error + real" where
  "py_mod a b =
     (if b = 0 then Inl ZeroDivisionError else Inr (a - b * of_int \<lfloor>a / b\<rfloor>))"

text \<open>\<open>xs[i]\<close> for an index that is not negative.\<close>

definition nth_err :: "'a list \<Rightarrow> nat \<Rightarrow> error + 'a" where
  "nth_err xs i = (if i < length xs then Inr (xs ! i) else Inl IndexError)"

text \<open>\<open>nut_info[key]\<close>, \<open>nut_info.get(key, default)\<close> and the truth value of \<open>nut_info\<close>.\<close>

definition nut_item :: "nut option \<Rightarrow> string \<Rightarrow> error + real" where
  "nut_item ni k =
     (case ni of
        None \<Rightarrow> Inl TypeError
      | Some d \<Rightarrow> (case map_of d k of None \<Rightarrow> Inl KeyError | Some v \<Rightarrow> Inr v))"

definition nut_get :: "nut option \<Rightarrow> string \<Rightarrow> real \<Rightarrow> error + real" where
  "nut_get ni k dflt =
     (case ni of
        None \<Rightarrow> Inl AttributeError
      | Some d \<Rightarrow> (case map_of d k of None \<Rightarrow> Inr dflt | Some v \<Rightarrow> Inr v))"

definition nut_truthy :: "nut option \<Rightarrow> bool" where
  "nut_truthy ni = (case ni of None \<Rightarrow> False | Some d \<Rightarrow> d \<noteq> [])"

subsection \<open>Profile generators\<close>

text \<open>
  The angle of sample \<open>i\<close>. The division by \<open>segments\<close> is inside the loop over
  \<open>range(segments)\<close>, where \<open>segments\<close> is positive.
\<close>

definition sample_angle :: "nat \<Rightarrow> nat \<Rightarrow> real" where
  "sample_angle i segs = 2 * pi * real i / real segs"

definition create_circle_profile :: "real \<Rightarrow> nat \<Rightarrow> point2 list" where
  "create_circle_profile diameter segs =
     (let radius = diameter / 2 in
      map (\<lambda>i. let angle = sample_angle i segs
               in (radius * cos angle, radius * sin angle)) [0..<segs])"

definition create_lobed_profile :: "real \<Rightarrow> real \<Rightarrow> real \<Rightarrow> nat \<Rightarrow> point2 list" where
  "create_lobed_profile diameter lbs protrusion_ratio segs =
     (let r_outer = diameter / 2;
          depth_factor = 0.6 * protrusion_ratio;
          r_inner = r_outer * (1 - depth_factor);
          r_mid = (r_outer + r_inner) / 2;
          amp = (r_outer - r_inner) / 2 in
      map (\<lambda>i. let angle = sample_angle i segs;
                   r = r_mid + amp * cos (lbs * angle)
               in (r * cos angle, r * sin angle)) [0..<segs])"

definition create_polygon_profile :: "real \<Rightarrow> real \<Rightarrow> nat \<Rightarrow> error + point2 list" where
  "create_polygon_profile diameter sides segs =
     (let rotation = 0;
          apothem = diameter / 2 in
      bind_err (py_div (2 * pi) sides) (\<lambda>period.
        map_err (\<lambda>i.
          let theta = sample_angle i segs in
          bind_err (py_mod (theta - rotation) period) (\<lambda>angle_in_sector.
            let angle_from_center = angle_in_sector - period / 2 in
            bind_err (py_div apothem (cos angle_from_center)) (\<lambda>r.
              Inr (r * cos theta, r * sin theta)))) [0..<segs]))"

definition create_d_shaft_profile :: "real \<Rightarrow> real \<Rightarrow> nat \<Rightarrow> point2 list" where
  "create_d_shaft_profile diameter flat_to_opposite segs =
     (let radius = diameter / 2;
          d_center_to_flat = flat_to_opposite - radius in
      map (\<lambda>i. let angle = sample_angle i segs;
                   rx = radius * cos angle;
                   ry = radius * sin angle
               in if rx > d_center_to_flat
                  then (d_center_to_flat, d_center_to_flat * tan angle)
                  else (rx, ry)) [0..<segs])"

subsection \<open>Mesh state\<close>

definition add_quad ::
  "point3 \<Rightarrow> point3 \<Rightarrow> point3 \<Rightarrow> point3 \<Rightarrow> bool \<Rightarrow> mesh_state \<Rightarrow> mesh_state" where
  "add_quad p1 p2 p3 p4 flip st =
     (case st of (all_vertices, all_faces) \<Rightarrow>
        let idx = length all_vertices in
        (all_vertices @ [p1, p2, p3, p4],
         all_faces @ (if flip then [(idx, idx + 2, idx + 1), (idx, idx + 3, idx + 2)]
                      else [(idx, idx + 1, idx + 2), (idx, idx + 2, idx + 3)])))"

text \<open>A profile embedded at height \<open>z\<close>: \<open>[(p[0], p[1], z) for p in profile]\<close>.\<close>

definition ring_at :: "real \<Rightarrow> point2 list \<Rightarrow> point3 list" where
  "ring_at z prof = map (\<lambda>p. (fst p, snd p, z)) prof"

text \<open>
  The loop \<open>for i in range(segments): add_quad(a[i], a[next_i], b[next_i], b[i], flip)\<close>
  that joins two rings (outer shell, recess rim, dish, open top, pocket wall, bore wall).
\<close>

definition quad_strip ::
  "nat \<Rightarrow> bool \<Rightarrow> point3 list \<Rightarrow> point3 list \<Rightarrow> mesh_state \<Rightarrow> error + mesh_state" where
  "quad_strip segs flip ring_curr ring_next st =
     fold_err (\<lambda>i s.
       let next_i = (i + 1) mod segs in
       bind_err (nth_err ring_curr i) (\<lambda>a.
       bind_err (nth_err ring_curr next_i) (\<lambda>b.
       bind_err (nth_err ring_next next_i) (\<lambda>c.
       bind_err (nth_err ring_next i) (\<lambda>d.
         Inr (add_quad a b c d flip s)))))) [0..<segs] st"

text \<open>
  The loop \<open>add_quad(a[next_i], a[i], b[i], b[next_i])\<close> of the pocket-to-bore transition
  and of the base cap.
\<close>

definition quad_strip_rev ::
  "nat \<Rightarrow> point3 list \<Rightarrow> point3 list \<Rightarrow> mesh_state \<Rightarrow> error + mesh_state" where
  "quad_strip_rev segs a b st =
     fold_err (\<lambda>i s.
       let next_i = (i + 1) mod segs in
       bind_err (nth_err a next_i) (\<lambda>a2.
       bind_err (nth_err a i) (\<lambda>a1.
       bind_err (nth_err b i) (\<lambda>b1.
       bind_err (nth_err b next_i) (\<lambda>b2.
         Inr (add_quad a2 a1 b1 b2 False s)))))) [0..<segs] st"

text \<open>The loop over adjacent ring pairs: \<open>for r in range(len(rings) - 1)\<close>.\<close>

definition stitch_rings ::
  "nat \<Rightarrow> point3 list list \<Rightarrow> mesh_state \<Rightarrow> error + mesh_state" where
  "stitch_rings segs rings st =
     fold_err (\<lambda>r s.
       bind_err (nth_err rings r) (\<lambda>ring_curr.
       bind_err (nth_err rings (r + 1)) (\<lambda>ring_next.
         quad_strip segs False ring_curr ring_next s))) [0..<length rings - 1] st"

text \<open>A centre vertex and one triangle \<open>[idx_c, idx_o1, idx_o2]\<close> per ring edge.\<close>

definition apex_fan ::
  "nat \<Rightarrow> point3 \<Rightarrow> point3 list \<Rightarrow> mesh_state \<Rightarrow> error + mesh_state" where
  "apex_fan segs center ring st =
     (case st of (all_vertices, all_faces) \<Rightarrow>
        let idx_c = length all_vertices in
        fold_err (\<lambda>i s.
          case s of (vs, fs) \<Rightarrow>
            let next_i = (i + 1) mod segs;
                idx_o1 = length vs;
                idx_o2 = idx_o1 + 1 in
            bind_err (nth_err ring i) (\<lambda>a.
            bind_err (nth_err ring next_i) (\<lambda>b.
              Inr (vs @ [a, b], fs @ [(idx_c, idx_o1, idx_o2)]))))
          [0..<segs] (all_vertices @ [center], all_faces))"

subsection \<open>Profiles of one generation call\<close>

definition body_profile :: "knob_params \<Rightarrow> point2 list" where
  "body_profile p =
     (if knob_style p = ''Lobed''
      then create_lobed_profile (knob_diameter p) (lobes p) (lobe_protrusion p) (segments p)
      else if ridges p > 0
      then (let grip_depth = 0.05
            in create_lobed_profile (knob_diameter p) (ridges p) grip_depth (segments p))
      else create_circle_profile (knob_diameter p) (segments p))"

definition boss_profile :: "knob_params \<Rightarrow> point2 list" where
  "boss_profile p = create_circle_profile (boss_diameter p) (segments p)"

definition shaft_profile :: "knob_params \<Rightarrow> point2 list" where
  "shaft_profile p =
     (if shaft_type p = ''D-Shaft''
      then (let flat_val = (if shaft_dia p = 6 then 4.5 else shaft_dia p * 0.75)
            in create_d_shaft_profile (shaft_dia p) flat_val (segments p))
      else if shaft_type p = ''Nut Trap'' \<and> nut_truthy (nut_info p)
      then create_circle_profile (shaft_dia p) (segments p)
      else create_circle_profile (shaft_dia p) (segments p))"

subsection \<open>Outer shell\<close>

definition z_base :: "knob_params \<Rightarrow> real" where
  "z_base p = (if boss_height p > 0.1 then boss_height p else 0)"

definition boss_rings :: "knob_params \<Rightarrow> point3 list list" where
  "boss_rings p =
     (if boss_height p > 0.1
      then [ring_at 0 (boss_profile p), ring_at (boss_height p) (boss_profile p)]
      else [])"

text \<open>\<open>scale = (mag - inset) / mag if mag > 0.001 else 1.0\<close>\<close>

definition radial_scale :: "real \<Rightarrow> real \<Rightarrow> error + real" where
  "radial_scale mag inset = (if mag > 0.001 then py_div (mag - inset) mag else Inr 1)"

definition inset_ring :: "point2 list \<Rightarrow> real \<Rightarrow> real \<Rightarrow> error + point3 list" where
  "inset_ring prof inset z =
     map_err (\<lambda>p.
       let mag = sqrt ((fst p)\<^sup>2 + (snd p)\<^sup>2) in
       bind_err (radial_scale mag inset) (\<lambda>scale.
         Inr (fst p * scale, snd p * scale, z))) prof"

definition has_bottom_fillet :: "knob_params \<Rightarrow> bool" where
  "has_bottom_fillet p = (bottom_fillet_radius p > 0 \<or> bottom_fillet_height p > 0)"

definition bottom_rings :: "knob_params \<Rightarrow> error + point3 list list" where
  "bottom_rings p =
     (if has_bottom_fillet p
      then map_err (\<lambda>s.
             let t = real s / 6;
                 z_f = z_base p + bottom_fillet_height p * t;
                 inset = (if bottom_fillet_height p > 0
                          then (let ratio = 1 - sin (t * pi / 2)
                                in bottom_fillet_radius p * ratio)
                          else 0)
             in inset_ring (body_profile p) inset z_f) [0..<7]
      else Inr [ring_at (z_base p) (body_profile p)])"

definition current_z :: "knob_params \<Rightarrow> real" where
  "current_z p =
     (if has_bottom_fillet p then z_base p + bottom_fillet_height p else z_base p)"

definition z_top_abs :: "knob_params \<Rightarrow> real" where
  "z_top_abs p = z_base p + knob_height p"

definition z_fillet_start :: "knob_params \<Rightarrow> real" where
  "z_fillet_start p =
     (if is_dome p then current_z p
      else max (current_z p) (z_top_abs p - top_fillet_height p))"

definition dome_rings :: "knob_params \<Rightarrow> error + point3 list list" where
  "dome_rings p =
     (let h_dome = z_top_abs p - z_fillet_start p in
      map_err (\<lambda>s.
        let t = real s / 12;
            z_curr = z_fillet_start p + h_dome * t;
            z_local = z_curr - z_fillet_start p in
        bind_err (if h_dome > 0
                  then bind_err (py_div z_local h_dome) (\<lambda>q. Inr (sqrt (max 0 (1 - q\<^sup>2))))
                  else Inr 0) (\<lambda>r_factor.
          Inr (map (\<lambda>pt. (fst pt * r_factor, snd pt * r_factor, z_curr))
                 (body_profile p)))) [1..<13])"

definition fillet_rings :: "knob_params \<Rightarrow> error + point3 list list" where
  "fillet_rings p =
     map_err (\<lambda>s.
       let t = real s / 8;
           dz_fillet_local = top_fillet_height p * t;
           z_curr = z_fillet_start p + dz_fillet_local in
       bind_err (if top_fillet_height p > 0
                 then bind_err (py_div dz_fillet_local (top_fillet_height p)) (\<lambda>q.
                        Inr (top_fillet_radius p * (1 - sqrt (max 0 (1 - q\<^sup>2)))))
                 else Inr 0) (\<lambda>inset.
         inset_ring (body_profile p) inset z_curr)) [1..<9]"

definition top_rings :: "knob_params \<Rightarrow> error + point3 list list" where
  "top_rings p =
     (if is_dome p then dome_rings p
      else if top_fillet_radius p > 0 \<or> top_fillet_height p > 0 then fillet_rings p
      else Inr [])"

definition outer_rings :: "knob_params \<Rightarrow> error + point3 list list" where
  "outer_rings p =
     bind_err (bottom_rings p) (\<lambda>bottom.
     bind_err (top_rings p) (\<lambda>top.
       Inr (boss_rings p @ bottom @ [ring_at (z_fillet_start p) (body_profile p)] @ top)))"

subsection \<open>Top closure\<close>

text \<open>\<open>xs[-1]\<close>\<close>

definition last_err :: "'a list \<Rightarrow> error + 'a" where
  "last_err xs = (if xs = [] then Inl IndexError else Inr (last xs))"

definition is_open :: "knob_params \<Rightarrow> bool" where
  "is_open p = (through_hole p \<or> (shaft_type p = ''Nut Trap'' \<and> nut_location p = ''Top''))"

definition planar_radius :: "point3 \<Rightarrow> real" where
  "planar_radius q = sqrt ((fst q)\<^sup>2 + (fst (snd q))\<^sup>2)"

text \<open>\<open>z_shaft_top_limit\<close> as set before the closure is chosen.\<close>

definition initial_shaft_top_limit :: "knob_params \<Rightarrow> real" where
  "initial_shaft_top_limit p =
     (let total_z_height = z_base p + knob_height p in
      if through_hole p
      then (if is_dome p then total_z_height
            else if recess_depth p > 0 then max (z_base p) (total_z_height - recess_depth p)
            else total_z_height)
      else hole_depth p)"

definition dome_closure ::
  "knob_params \<Rightarrow> point3 list \<Rightarrow> real \<Rightarrow> mesh_state \<Rightarrow> error + mesh_state \<times> real" where
  "dome_closure p top_outer_ring z_top_mesh st =
     bind_err (nth_err top_outer_ring 0) (\<lambda>q.
       let final_r = planar_radius q in
       if final_r > 0.1
       then bind_err (apex_fan (segments p) (0, 0, z_top_mesh) top_outer_ring st) (\<lambda>st1.
              Inr (st1, initial_shaft_top_limit p))
       else Inr (st, initial_shaft_top_limit p))"

text \<open>
  The dish loop \<open>for s in range(1, dish_steps + 1)\<close> with its \<open>break\<close>: the rings appended
  to \<open>dish_rings\<close> for the remaining values of \<open>s\<close>.
\<close>

fun dish_loop :: "knob_params \<Rightarrow> real \<Rightarrow> real \<Rightarrow> nat list \<Rightarrow> point3 list list" where
  "dish_loop p z_top_mesh hole_r [] = []"
| "dish_loop p z_top_mesh hole_r (s # ss) =
     (let t = real s / 5;
          curr_radius_factor = 1 - t;
          curr_r0 = (recess_diameter p / 2) * curr_radius_factor;
          z_curr = z_top_mesh - recess_depth p * (1 - curr_radius_factor\<^sup>2);
          curr_r = (if curr_r0 < hole_r then hole_r else curr_r0);
          poly = map (\<lambda>i. let angle = sample_angle i (segments p)
                          in (curr_r * cos angle, curr_r * sin angle, z_curr))
                   [0..<segments p]
      in if curr_r \<le> hole_r + 0.001 then [poly]
         else poly # dish_loop p z_top_mesh hole_r ss)"

definition dish_hole_r :: "knob_params \<Rightarrow> real" where
  "dish_hole_r p = (if through_hole p then shaft_dia p / 2 else 0)"

definition dish_rings :: "knob_params \<Rightarrow> real \<Rightarrow> point3 list list" where
  "dish_rings p z_top_mesh =
     ring_at z_top_mesh (create_circle_profile (recess_diameter p) (segments p))
       # dish_loop p z_top_mesh (dish_hole_r p) [1..<6]"

definition recess_closure ::
  "knob_params \<Rightarrow> point3 list \<Rightarrow> real \<Rightarrow> mesh_state \<Rightarrow> error + mesh_state \<times> real" where
  "recess_closure p top_outer_ring z_top_mesh st =
     (let recess_start_ring =
            ring_at z_top_mesh (create_circle_profile (recess_diameter p) (segments p)) in
      bind_err (quad_strip (segments p) False top_outer_ring recess_start_ring st) (\<lambda>st1.
      bind_err (stitch_rings (segments p) (dish_rings p z_top_mesh) st1) (\<lambda>st2.
      bind_err (last_err (dish_rings p z_top_mesh)) (\<lambda>final_ring.
      bind_err (nth_err final_ring 0) (\<lambda>q.
        let z_final = snd (snd q);
            final_r = planar_radius q in
        if \<not> is_open p \<and> final_r > 0.1
        then bind_err (apex_fan (segments p) (0, 0, z_final) final_ring st2) (\<lambda>st3.
               Inr (st3, z_final))
        else Inr (st2, z_final))))))"

text \<open>\<open>w = nut_info["width"] + nut_info.get("tolerance", 0.2)\<close>\<close>

definition nut_width :: "knob_params \<Rightarrow> error + real" where
  "nut_width p =
     bind_err (nut_item (nut_info p) ''width'') (\<lambda>a.
     bind_err (nut_get (nut_info p) ''tolerance'' 0.2) (\<lambda>b. Inr (a + b)))"

definition plain_closure ::
  "knob_params \<Rightarrow> point3 list \<Rightarrow> real \<Rightarrow> mesh_state \<Rightarrow> error + mesh_state \<times> real" where
  "plain_closure p top_outer_ring z_top_mesh st =
     (if is_open p
      then bind_err
             (if shaft_type p = ''Nut Trap'' \<and> nut_location p = ''Top''
              then bind_err (nut_width p) (\<lambda>w. create_polygon_profile w 6 (segments p))
              else Inr (create_circle_profile (shaft_dia p) (segments p))) (\<lambda>prof.
             let hole_poly = ring_at z_top_mesh prof in
             bind_err (quad_strip (segments p) False top_outer_ring hole_poly st) (\<lambda>st1.
               Inr (st1, z_top_mesh)))
      else bind_err (apex_fan (segments p) (0, 0, z_top_mesh) top_outer_ring st) (\<lambda>st1.
             Inr (st1, initial_shaft_top_limit p)))"

text \<open>The state after the closure, with the final \<open>z_shaft_top_limit\<close>.\<close>

definition top_closure ::
  "knob_params \<Rightarrow> point3 list list \<Rightarrow> mesh_state \<Rightarrow> error + mesh_state \<times> real" where
  "top_closure p rings st =
     bind_err (last_err rings) (\<lambda>top_outer_ring.
     bind_err (nth_err top_outer_ring 0) (\<lambda>q.
       let z_top_mesh = snd (snd q) in
       if is_dome p then dome_closure p top_outer_ring z_top_mesh st
       else if recess_depth p > 0 then recess_closure p top_outer_ring z_top_mesh st
       else plain_closure p top_outer_ring z_top_mesh st))"

subsection \<open>Cavity and base\<close>

definition nut_pocket :: "knob_params \<Rightarrow> mesh_state \<Rightarrow> error + mesh_state" where
  "nut_pocket p st =
     (if shaft_type p = ''Nut Trap'' \<and> nut_truthy (nut_info p)
      then bind_err (nut_width p) (\<lambda>w.
           bind_err (nut_item (nut_info p) ''height'') (\<lambda>nh.
             let h = nh + 0.2 in
             bind_err (create_polygon_profile w 6 (segments p)) (\<lambda>trap_poly.
               if nut_location p = ''Bottom''
               then bind_err (quad_strip (segments p) True
                                (ring_at 0 trap_poly) (ring_at h trap_poly) st) (\<lambda>st1.
                      let shaft_p = create_circle_profile (shaft_dia p) (segments p) in
                      quad_strip_rev (segments p) (ring_at h trap_poly) (ring_at h shaft_p) st1)
               else Inr st)))
      else Inr st)"

definition bore_z_top :: "knob_params \<Rightarrow> real \<Rightarrow> real" where
  "bore_z_top p z_shaft_top_limit =
     (if through_hole p then z_shaft_top_limit else hole_depth p)"

definition bore_z_bot :: "knob_params \<Rightarrow> error + real" where
  "bore_z_bot p =
     (if shaft_type p = ''Nut Trap'' \<and> nut_location p = ''Bottom''
      then bind_err (nut_item (nut_info p) ''height'') (\<lambda>nh. Inr (nh + 0.2))
      else Inr 0)"

definition shaft_bore :: "knob_params \<Rightarrow> real \<Rightarrow> mesh_state \<Rightarrow> error + mesh_state" where
  "shaft_bore p z_shaft_top_limit st =
     (let z_top = bore_z_top p z_shaft_top_limit in
      bind_err (bore_z_bot p) (\<lambda>z_bot.
        if z_top > z_bot
        then bind_err (quad_strip (segments p) True
                         (ring_at z_bot (shaft_profile p)) (ring_at z_top (shaft_profile p)) st)
               (\<lambda>st1.
                 if \<not> through_hole p \<and> shaft_type p \<noteq> ''Nut Trap''
                 then apex_fan (segments p) (0, 0, z_top)
                        (ring_at z_top (shaft_profile p)) st1
                 else Inr st1)
        else Inr st))"

definition base_cap ::
  "knob_params \<Rightarrow> point3 list list \<Rightarrow> mesh_state \<Rightarrow> error + mesh_state" where
  "base_cap p rings st =
     bind_err (nth_err rings 0) (\<lambda>bottom_outer_ring.
     bind_err (if shaft_type p = ''Nut Trap'' \<and> nut_location p = ''Bottom''
               then bind_err (nut_width p) (\<lambda>w.
                    bind_err (create_polygon_profile w 6 (segments p)) (\<lambda>prof.
                      Inr (ring_at 0 prof)))
               else Inr (ring_at 0 (shaft_profile p))) (\<lambda>inner_bottom.
       quad_strip_rev (segments p) bottom_outer_ring inner_bottom st))"

subsection \<open>The generator\<close>

text \<open>The accumulators when the assembly loop starts.\<close>

definition knob_faces :: "knob_params \<Rightarrow> error + mesh_state" where
  "knob_faces p =
     bind_err (outer_rings p) (\<lambda>rings.
     bind_err (stitch_rings (segments p) rings ([], [])) (\<lambda>st1.
     bind_err (top_closure p rings st1) (\<lambda>(st2, z_shaft_top_limit).
     bind_err (nut_pocket p st2) (\<lambda>st3.
     bind_err (shaft_bore p z_shaft_top_limit st3) (\<lambda>st4.
       base_cap p rings st4)))))"

text \<open>
  The assembly loop \<open>data['vectors'][i][j] = np_verts[face[j]]\<close>: one triangle of three
  coordinate triples per face.
\<close>

type_synonym triangle = "point3 \<times> point3 \<times> point3"

definition assemble :: "mesh_state \<Rightarrow> error + triangle list" where
  "assemble st =
     (case st of (all_vertices, all_faces) \<Rightarrow>
        map_err (\<lambda>face. case face of (a, b, c) \<Rightarrow>
          bind_err (nth_err all_vertices a) (\<lambda>va.
          bind_err (nth_err all_vertices b) (\<lambda>vb.
          bind_err (nth_err all_vertices c) (\<lambda>vc. Inr (va, vb, vc))))) all_faces)"

definition generate_knob_mesh :: "knob_params \<Rightarrow> error + triangle list" where
  "generate_knob_mesh p = bind_err (knob_faces p) assemble"

section \<open>Properties\<close>

subsection \<open>Predicates used in the statements\<close>

text \<open>
  A profile of \<open>N\<close> points whose point \<open>i\<close> lies on the ray from the origin at angle
  \<open>2\<pi>i/N\<close>, these angles increasing strictly inside \<open>[0, 2\<pi>)\<close>.
\<close>

definition angle_ordered :: "nat \<Rightarrow> point2 list \<Rightarrow> bool" where
  "angle_ordered N ps =
     (length ps = N
      \<and> (\<forall>i<N. \<exists>r>0. ps ! i = (r * cos (sample_angle i N), r * sin (sample_angle i N)))
      \<and> (\<forall>i<N. \<forall>j<N. i < j \<longrightarrow>
            0 \<le> sample_angle i N \<and> sample_angle i N < sample_angle j N
            \<and> sample_angle j N < 2 * pi))"


text \<open>A ring of \<open>N\<close> points that share one z-coordinate.\<close>

definition same_z :: "point3 list \<Rightarrow> bool" where
  "same_z ring = (\<forall>q\<in>set ring. \<forall>q'\<in>set ring. snd (snd q) = snd (snd q'))"

definition ring_ok :: "nat \<Rightarrow> point3 list \<Rightarrow> bool" where
  "ring_ok N ring = (length ring = N \<and> same_z ring)"

text \<open>Every face refers to vertices that are in the vertex list.\<close>

definition faces_ok :: "mesh_state \<Rightarrow> bool" where
  "faces_ok st =
     (\<forall>face\<in>set (snd st). case face of (a, b, c) \<Rightarrow>
        a < length (fst st) \<and> b < length (fst st) \<and> c < length (fst st))"

text \<open>The default arguments of \<open>generate_knob_mesh\<close>.\<close>

definition default_params :: knob_params where
  "default_params =
     \<lparr>knob_diameter = 25, knob_height = 15, knob_style = ''Round'', lobes = 6,
      lobe_protrusion = 0.3, ridges = 0, top_fillet_radius = 2, top_fillet_height = 2,
      bottom_fillet_radius = 0, bottom_fillet_height = 0, is_dome = False,
      boss_height = 0, boss_diameter = 10, recess_depth = 0, recess_diameter = 15,
      shaft_type = ''D-Shaft'', shaft_dia = 6, hole_depth = 10, through_hole = False,
      nut_info = None, nut_location = ''Bottom'', segments = 64\<rparr>"

text \<open>The number of triangles of the returned mesh.\<close>

definition triangle_count :: "knob_params \<Rightarrow> error + nat" where
  "triangle_count p = bind_err (generate_knob_mesh p) (\<lambda>ts. Inr (length ts))"

text \<open>
  The plain round knob: no ridges, no fillets, no boss, no dome, no dish, a blind round
  hole that ends inside the body.
\<close>

definition plain_round_knob :: "knob_params \<Rightarrow> bool" where
  "plain_round_knob p =
     (knob_style p = ''Round'' \<and> ridges p = 0
      \<and> top_fillet_radius p = 0 \<and> top_fillet_height p = 0
      \<and> bottom_fillet_radius p = 0 \<and> bottom_fillet_height p = 0
      \<and> boss_height p = 0 \<and> \<not> is_dome p \<and> recess_depth p = 0
      \<and> shaft_type p = ''Round Hole'' \<and> \<not> through_hole p
      \<and> 0 < hole_depth p \<and> hole_depth p < knob_height p)"

text \<open>The number of faces in the accumulator after a builder step.\<close>

definition face_count :: "error + mesh_state \<Rightarrow> error + nat" where
  "face_count r = bind_err r (\<lambda>st. Inr (length (snd st)))"

text \<open>Concrete calls: the defaults with the named arguments replaced.\<close>

definition plain_example :: "nat \<Rightarrow> knob_params" where
  "plain_example N =
     default_params\<lparr>top_fillet_radius := 0, top_fillet_height := 0,
       shaft_type := ''Round Hole'', segments := N\<rparr>"

definition dish_example :: knob_params where
  "dish_example =
     default_params\<lparr>recess_depth := 5, shaft_type := ''Round Hole'', segments := 4\<rparr>"

text \<open>The entry \<open>"M3 Nut"\<close> of \<open>NUT_TYPES\<close>.\<close>

definition m3_nut :: nut where
  "m3_nut = [(''width'', 5.5), (''height'', 2.4), (''tolerance'', 0.2)]"

definition nut_example :: knob_params where
  "nut_example =
     default_params\<lparr>shaft_type := ''Nut Trap'', shaft_dia := 3.2, hole_depth := 15,
       nut_info := Some m3_nut, segments := 4\<rparr>"

subsection \<open>Signed volume\<close>

text \<open>
  Modelled from the spec: the volume metric is computed by the mesh library
  (\<open>get_mass_properties\<close>), which is not part of the sources. The specification describes
  it as the tetrahedron sum over all triangles: each triangle spans a tetrahedron with the
  origin, of signed volume one sixth of the determinant of its three corners.
\<close>

fun det3 :: "point3 \<Rightarrow> point3 \<Rightarrow> point3 \<Rightarrow> real" where
  "det3 (ax, ay, az) (bx, by, bz) (cx, cy, cz) =
     ax * (by * cz - bz * cy) - ay * (bx * cz - bz * cx) + az * (bx * cy - by * cx)"

definition tet_volume :: "triangle \<Rightarrow> real" where
  "tet_volume t = (case t of (a, b, c) \<Rightarrow> det3 a b c / 6)"

definition signed_volume :: "triangle list \<Rightarrow> real" where
  "signed_volume ts = sum_list (map tet_volume ts)"

definition mesh_volume :: "knob_params \<Rightarrow> error + real" where
  "mesh_volume p = bind_err (generate_knob_mesh p) (\<lambda>ts. Inr (signed_volume ts))"

text \<open>A through hole wider than the body, at two heights.\<close>

definition wide_bore_example :: "real \<Rightarrow> knob_params" where
  "wide_bore_example h =
     default_params\<lparr>knob_diameter := 10, knob_height := h, top_fillet_radius := 0,
       top_fillet_height := 0, shaft_type := ''Round Hole'', shaft_dia := 15,
       through_hole := True, segments := 4\<rparr>"

text \<open>
  The triangles that the assembly loop reads off a state, and their signed volume.
\<close>

definition tris_of :: "mesh_state \<Rightarrow> triangle list" where
  "tris_of st =
     (case st of (all_vertices, all_faces) \<Rightarrow>
        map (\<lambda>face. case face of (a, b, c) \<Rightarrow>
               (all_vertices ! a, all_vertices ! b, all_vertices ! c)) all_faces)"

definition state_volume :: "mesh_state \<Rightarrow> real" where
  "state_volume st = signed_volume (tris_of st)"

text \<open>The signed volume of the two triangles that \<open>add_quad\<close> appends.\<close>

definition quad_volume :: "point3 \<Rightarrow> point3 \<Rightarrow> point3 \<Rightarrow> point3 \<Rightarrow> bool \<Rightarrow> real" where
  "quad_volume p1 p2 p3 p4 flip =
     (if flip then tet_volume (p1, p3, p2) + tet_volume (p1, p4, p3)
      else tet_volume (p1, p2, p3) + tet_volume (p1, p3, p4))"

text \<open>Twice the signed area of the polygon through the points of a profile.\<close>

definition cross2 :: "point2 \<Rightarrow> point2 \<Rightarrow> real" where
  "cross2 u v = fst u * snd v - fst v * snd u"

definition profile_area2 :: "nat \<Rightarrow> point2 list \<Rightarrow> real" where
  "profile_area2 N prof = (\<Sum>i\<leftarrow>[0..<N]. cross2 (prof ! i) (prof ! ((i + 1) mod N)))"

subsection \<open>Volume of strips, fans and ring stacks\<close>

text \<open>The signed volume that each builder loop adds to the mesh.\<close>

definition strip_vol :: "nat \<Rightarrow> bool \<Rightarrow> point3 list \<Rightarrow> point3 list \<Rightarrow> real" where
  "strip_vol N flip a b =
     (\<Sum>i\<leftarrow>[0..<N]. quad_volume (a ! i) (a ! ((i + 1) mod N))
                          (b ! ((i + 1) mod N)) (b ! i) flip)"

definition strip_rev_vol :: "nat \<Rightarrow> point3 list \<Rightarrow> point3 list \<Rightarrow> real" where
  "strip_rev_vol N a b =
     (\<Sum>i\<leftarrow>[0..<N]. quad_volume (a ! ((i + 1) mod N)) (a ! i)
                          (b ! i) (b ! ((i + 1) mod N)) False)"

definition fan_vol :: "nat \<Rightarrow> point3 \<Rightarrow> point3 list \<Rightarrow> real" where
  "fan_vol N c ring = (\<Sum>i\<leftarrow>[0..<N]. tet_volume (c, ring ! i, ring ! ((i + 1) mod N)))"

fun stack_vol :: "nat \<Rightarrow> point3 list list \<Rightarrow> real" where
  "stack_vol N (a # b # rs) = strip_vol N False a b + stack_vol N (b # rs)"
| "stack_vol N rs = 0"

text \<open>
  A ring in polar form: point \<open>i\<close> at signed radius \<open>\<rho> i\<close> on the ray of sample angle
  \<open>i\<close>, at height \<open>z\<close>. A stack of such rings is a list of radius functions with heights.
\<close>

definition polar_ring :: "nat \<Rightarrow> (nat \<Rightarrow> real) \<Rightarrow> real \<Rightarrow> point3 list" where
  "polar_ring N \<rho> z =
     map (\<lambda>i. (\<rho> i * cos (sample_angle i N), \<rho> i * sin (sample_angle i N), z)) [0..<N]"

type_synonym polar_stack = "((nat \<Rightarrow> real) \<times> real) list"

definition polar_rings :: "nat \<Rightarrow> polar_stack \<Rightarrow> point3 list list" where
  "polar_rings N ks = map (\<lambda>k. polar_ring N (fst k) (snd k)) ks"

definition step_sin :: "nat \<Rightarrow> real" where
  "step_sin N = sin (2 * pi / real N)"

definition pair_sum :: "nat \<Rightarrow> (nat \<Rightarrow> real) \<Rightarrow> (nat \<Rightarrow> real) \<Rightarrow> real" where
  "pair_sum N \<alpha> \<beta> = (\<Sum>i\<leftarrow>[0..<N]. \<alpha> i * \<beta> ((i + 1) mod N))"

text \<open>Twice the signed area of a polar ring, and the frustum between two polar rings.\<close>

definition ring_q :: "nat \<Rightarrow> (nat \<Rightarrow> real) \<Rightarrow> real" where
  "ring_q N \<alpha> = step_sin N * pair_sum N \<alpha> \<alpha>"

definition frustum :: "nat \<Rightarrow> (nat \<Rightarrow> real) \<Rightarrow> (nat \<Rightarrow> real) \<Rightarrow> real" where
  "frustum N \<alpha> \<beta> =
     step_sin N / 6 * (pair_sum N \<alpha> \<alpha> + pair_sum N \<alpha> \<beta> + pair_sum N \<beta> \<beta>)"

fun frusta_sum :: "nat \<Rightarrow> polar_stack \<Rightarrow> real" where
  "frusta_sum N (a # b # ks) =
     (snd b - snd a) * frustum N (fst a) (fst b) + frusta_sum N (b # ks)"
| "frusta_sum N ks = 0"

text \<open>
  The ring stack of the outer shell in polar form. Lemma \<open>outer_rings_polar\<close> shows that
  \<open>outer_rings\<close> returns these rings.
\<close>

definition lobed_radius :: "real \<Rightarrow> real \<Rightarrow> real \<Rightarrow> real \<Rightarrow> real" where
  "lobed_radius d l pr \<theta> =
     (d / 2 + d / 2 * (1 - 0.6 * pr)) / 2 + (d / 2 - d / 2 * (1 - 0.6 * pr)) / 2 * cos (l * \<theta>)"

definition body_radius :: "knob_params \<Rightarrow> nat \<Rightarrow> real" where
  "body_radius p i =
     (if knob_style p = ''Lobed''
      then lobed_radius (knob_diameter p) (lobes p) (lobe_protrusion p)
             (sample_angle i (segments p))
      else if ridges p > 0
      then lobed_radius (knob_diameter p) (ridges p) 0.05 (sample_angle i (segments p))
      else knob_diameter p / 2)"

definition inset_radius :: "real \<Rightarrow> real \<Rightarrow> real" where
  "inset_radius r ins = r * (if \<bar>r\<bar> > 0.001 then (\<bar>r\<bar> - ins) / \<bar>r\<bar> else 1)"

definition bottom_inset :: "knob_params \<Rightarrow> nat \<Rightarrow> real" where
  "bottom_inset p s =
     (if bottom_fillet_height p > 0
      then bottom_fillet_radius p * (1 - sin (real s / 6 * pi / 2)) else 0)"

definition top_inset :: "knob_params \<Rightarrow> nat \<Rightarrow> real" where
  "top_inset p s =
     (if top_fillet_height p > 0
      then top_fillet_radius p
           * (1 - sqrt (max 0 (1 - (top_fillet_height p * (real s / 8)
                                      / top_fillet_height p)\<^sup>2)))
      else 0)"

definition dome_height :: "knob_params \<Rightarrow> real" where
  "dome_height p = z_top_abs p - z_fillet_start p"

definition dome_factor :: "knob_params \<Rightarrow> nat \<Rightarrow> real" where
  "dome_factor p s =
     (if dome_height p > 0
      then sqrt (max 0 (1 - ((z_fillet_start p + dome_height p * (real s / 12)
                               - z_fillet_start p) / dome_height p)\<^sup>2))
      else 0)"

definition boss_stack :: "knob_params \<Rightarrow> polar_stack" where
  "boss_stack p =
     (if boss_height p > 0.1
      then [(\<lambda>i. boss_diameter p / 2, 0), (\<lambda>i. boss_diameter p / 2, boss_height p)]
      else [])"

definition bottom_stack :: "knob_params \<Rightarrow> polar_stack" where
  "bottom_stack p =
     (if has_bottom_fillet p
      then map (\<lambda>s. (\<lambda>i. inset_radius (body_radius p i) (bottom_inset p s),
                    z_base p + bottom_fillet_height p * (real s / 6))) [0..<7]
      else [(body_radius p, z_base p)])"

definition top_stack :: "knob_params \<Rightarrow> polar_stack" where
  "top_stack p =
     (if is_dome p
      then map (\<lambda>s. (\<lambda>i. body_radius p i * dome_factor p s,
                    z_fillet_start p + dome_height p * (real s / 12))) [1..<13]
      else if top_fillet_radius p > 0 \<or> top_fillet_height p > 0
      then map (\<lambda>s. (\<lambda>i. inset_radius (body_radius p i) (top_inset p s),
                    z_fillet_start p + top_fillet_height p * (real s / 8))) [1..<9]
      else [])"

definition shell_stack :: "knob_params \<Rightarrow> polar_stack" where
  "shell_stack p =
     boss_stack p @ bottom_stack p @ [(body_radius p, z_fillet_start p)] @ top_stack p"

text \<open>
  The dish rings in polar form, following \<open>dish_loop\<close>. Lemma \<open>dish_rings_polar\<close> shows that
  \<open>dish_rings\<close> returns these rings.
\<close>

fun dish_loop_stack :: "knob_params \<Rightarrow> real \<Rightarrow> real \<Rightarrow> nat list \<Rightarrow> polar_stack" where
  "dish_loop_stack p z_top_mesh hole_r [] = []"
| "dish_loop_stack p z_top_mesh hole_r (s # ss) =
     (let t = real s / 5;
          curr_radius_factor = 1 - t;
          curr_r0 = (recess_diameter p / 2) * curr_radius_factor;
          z_curr = z_top_mesh - recess_depth p * (1 - curr_radius_factor\<^sup>2);
          curr_r = (if curr_r0 < hole_r then hole_r else curr_r0)
      in if curr_r \<le> hole_r + 0.001 then [(\<lambda>i. curr_r, z_curr)]
         else (\<lambda>i. curr_r, z_curr) # dish_loop_stack p z_top_mesh hole_r ss)"

definition dish_stack :: "knob_params \<Rightarrow> real \<Rightarrow> polar_stack" where
  "dish_stack p z =
     (\<lambda>i. recess_diameter p / 2, z) # dish_loop_stack p z (dish_hole_r p) [1..<6]"

definition dish_final :: "knob_params \<Rightarrow> real \<Rightarrow> (nat \<Rightarrow> real) \<times> real" where
  "dish_final p z = last (dish_stack p z)"

text \<open>A nut trap at the top of the knob: the one case where the top opening is a hexagon.\<close>

definition nut_top :: "knob_params \<Rightarrow> bool" where
  "nut_top p = (shaft_type p = ''Nut Trap'' \<and> nut_location p = ''Top'')"

text \<open>
  The radius of the hexagon profile at sample \<open>i\<close>, as \<open>create_polygon_profile\<close> computes it
  for six sides, and the radius of the opening that the plain closure leaves in the top.
\<close>

definition hex_radius :: "real \<Rightarrow> nat \<Rightarrow> nat \<Rightarrow> real" where
  "hex_radius w N i =
     w / 2 / cos (sample_angle i N
                  - 2 * pi / 6 * of_int \<lfloor>sample_angle i N / (2 * pi / 6)\<rfloor> - 2 * pi / 6 / 2)"

definition opening_radius :: "knob_params \<Rightarrow> nat \<Rightarrow> real" where
  "opening_radius p i =
     (if nut_top p
      then hex_radius (case nut_width p of Inr w \<Rightarrow> w | Inl e \<Rightarrow> 0) (segments p) i
      else shaft_dia p / 2)"

text \<open>
  What the top closure adds to the volume beyond closing the top ring with a flat lid at
  height \<open>z\<close>, and the value of \<open>z_shaft_top_limit\<close> it leaves.
\<close>

definition top_rest :: "knob_params \<Rightarrow> real \<Rightarrow> real" where
  "top_rest p z =
     (if is_dome p then 0
      else if recess_depth p > 0
      then frusta_sum (segments p) (dish_stack p z)
           - (if \<not> is_open p \<and> \<bar>fst (dish_final p z) 0\<bar> > 0.1 then 0
              else snd (dish_final p z) * ring_q (segments p) (fst (dish_final p z)) / 6)
      else if is_open p
      then - (z * ring_q (segments p) (opening_radius p) / 6)
      else 0)"

definition top_limit :: "knob_params \<Rightarrow> real \<Rightarrow> real" where
  "top_limit p z =
     (if is_dome p then initial_shaft_top_limit p
      else if recess_depth p > 0 then snd (dish_final p z)
      else if is_open p then z
      else initial_shaft_top_limit p)"

text \<open>The volume that the nut pocket and the bore add, read off a run on the empty mesh.\<close>

definition pocket_vol :: "knob_params \<Rightarrow> real" where
  "pocket_vol p = (case nut_pocket p ([], []) of Inr s \<Rightarrow> state_volume s | Inl e \<Rightarrow> 0)"

definition bore_vol :: "knob_params \<Rightarrow> real \<Rightarrow> real" where
  "bore_vol p zl = (case shaft_bore p zl ([], []) of Inr s \<Rightarrow> state_volume s | Inl e \<Rightarrow> 0)"

text \<open>The plain closure over a nut trap at the top reads the nut width.\<close>

definition lid_ready :: "knob_params \<Rightarrow> bool" where
  "lid_ready p =
     (nut_top p \<and> \<not> is_dome p \<and> \<not> recess_depth p > 0 \<longrightarrow> \<not> isl (nut_width p))"

text \<open>
  What a run needs from the nut description: the reads of \<open>nut_info\<close> in the top closure,
  the nut pocket, the bore and the base cap all succeed.
\<close>

definition cavity_ready :: "knob_params \<Rightarrow> bool" where
  "cavity_ready p =
     (lid_ready p \<and> \<not> isl (nut_pocket p ([], [])) \<and> \<not> isl (bore_z_bot p)
      \<and> (shaft_type p = ''Nut Trap'' \<and> nut_location p = ''Bottom'' \<longrightarrow> \<not> isl (nut_width p)))"

text \<open>
  The height of the top ring of the outer shell, and the signed volume of the mesh in
  closed form: the frusta of the outer shell, the top closure, the nut pocket and the bore.
  Lemma \<open>mesh_volume_formula\<close> shows that \<open>mesh_volume\<close> returns this value whenever the
  generator returns a mesh.
\<close>

definition lid_z :: "knob_params \<Rightarrow> real" where
  "lid_z p = snd (last (shell_stack p))"

definition knob_volume :: "knob_params \<Rightarrow> real" where
  "knob_volume p =
     frusta_sum (segments p) (shell_stack p) + top_rest p (lid_z p) + pocket_vol p
     + bore_vol p (top_limit p (lid_z p))"

text \<open>
  The top part of the shell of a knob without a dome, with heights measured from the
  start of the top fillet: the body ring and the rings of the top fillet.
\<close>

definition cap_stack :: "knob_params \<Rightarrow> polar_stack" where
  "cap_stack p =
     (body_radius p, 0)
       # (if top_fillet_radius p > 0 \<or> top_fillet_height p > 0
          then map (\<lambda>s. (\<lambda>i. inset_radius (body_radius p i) (top_inset p s),
                         top_fillet_height p * (real s / 8))) [1..<9]
          else [])"

text \<open>
  Twice the area of the body outline, twice the area of the opening that the top closure
  leaves (nothing under a dome or a lid), and twice the area of a through bore.
\<close>

definition body_q :: "knob_params \<Rightarrow> real" where
  "body_q p = ring_q (segments p) (body_radius p)"

definition opening_q :: "knob_params \<Rightarrow> real" where
  "opening_q p =
     (if is_dome p then 0
      else if recess_depth p > 0
      then (if \<not> is_open p \<and> \<bar>fst (dish_final p 0) 0\<bar> > 0.1 then 0
            else ring_q (segments p) (fst (dish_final p 0)))
      else if is_open p then ring_q (segments p) (opening_radius p)
      else 0)"

definition bore_q :: "knob_params \<Rightarrow> real" where
  "bore_q p =
     (if through_hole p then max 0 (profile_area2 (segments p) (shaft_profile p)) else 0)"

text \<open>
  The dome as a stack of frusta: the radius factor of dome ring \<open>s\<close>, and the volume of
  the dome as a fraction of the cylinder of the same base and height.
\<close>

definition dome_profile :: "nat \<Rightarrow> real" where
  "dome_profile s = sqrt (max 0 (1 - (real s / 12)\<^sup>2))"

definition dome_fill :: real where
  "dome_fill = (\<Sum>s\<leftarrow>[0..<12]. (dome_profile s)\<^sup>2 + dome_profile s * dome_profile (s + 1)
                                 + (dome_profile (s + 1))\<^sup>2) / 36"

definition fill_factor :: "knob_params \<Rightarrow> real" where
  "fill_factor p = (if is_dome p then dome_fill else 1)"


text \<open>
  The area that a layer of the body or dome adds is at least the area that the top
  opening and a through bore take away.
\<close>

definition height_margin :: "knob_params \<Rightarrow> bool" where
  "height_margin p = (opening_q p + 2 * bore_q p \<le> 3 * fill_factor p * body_q p)"

text \<open>
  The body radius at sample \<open>i\<close> is half the diameter times a factor that does not depend
  on the diameter; \<open>narrow\<close> is a lower bound of that factor.
\<close>

definition body_shape :: "knob_params \<Rightarrow> nat \<Rightarrow> real" where
  "body_shape p i =
     (if knob_style p = ''Lobed''
      then 1 - 0.3 * lobe_protrusion p
               * (1 - cos (lobes p * sample_angle i (segments p)))
      else if ridges p > 0
      then 1 - 0.3 * 0.05 * (1 - cos (ridges p * sample_angle i (segments p)))
      else 1)"

definition narrow :: "knob_params \<Rightarrow> real" where
  "narrow p =
     (if knob_style p = ''Lobed'' then min 1 (1 - 0.6 * lobe_protrusion p)
      else if ridges p > 0 then 0.97
      else 1)"



text \<open>The shell above the boss.\<close>

definition core_stack :: "knob_params \<Rightarrow> polar_stack" where
  "core_stack p = bottom_stack p @ [(body_radius p, z_fillet_start p)] @ top_stack p"


subsection \<open>Proofs\<close>

subsubsection \<open>Profile generators\<close>

lemma length_circle: "length (create_circle_profile d N) = N"
  by (simp add: create_circle_profile_def)

lemma length_lobed: "length (create_lobed_profile d l r N) = N"
  by (simp add: create_lobed_profile_def Let_def)

lemma length_d_shaft: "length (create_d_shaft_profile d f N) = N"
  by (simp add: create_d_shaft_profile_def Let_def)

lemma map_err_Inr_all:
  assumes "\<And>x. x \<in> set xs \<Longrightarrow> \<exists>y. f x = Inr y \<and> P x y"
  shows "\<exists>ys. map_err f xs = Inr ys \<and> length ys = length xs \<and> (\<forall>i<length xs. P (xs ! i) (ys ! i))"
  using assms
proof (induction xs)
  case Nil
  then show ?case by simp
next
  case (Cons x xs)
  from Cons.prems obtain y where y: "f x = Inr y" "P x y" by auto
  from Cons obtain ys where ys: "map_err f xs = Inr ys" "length ys = length xs"
    "\<forall>i<length xs. P (xs ! i) (ys ! i)" by auto
  show ?case using y ys by (auto simp: nth_Cons split: nat.splits)
qed

lemma circle_nth:
  "i < N \<Longrightarrow> create_circle_profile d N ! i = (d / 2 * cos (sample_angle i N), d / 2 * sin (sample_angle i N))"
  by (simp add: create_circle_profile_def Let_def)

lemma lobed_radius_pos:
  assumes "0 < (d::real)" "0 \<le> (ratio::real)" "ratio \<le> 1"
  shows "0 < (d / 2 + d / 2 * (1 - 0.6 * ratio)) / 2 + (d / 2 - d / 2 * (1 - 0.6 * ratio)) / 2 * cos x"
proof -
  let ?a = "(d / 2 - d / 2 * (1 - 0.6 * ratio)) / 2"
  have a: "0 \<le> ?a" using assms by (simp add: algebra_simps)
  have "- 1 \<le> cos x" by simp
  then have "?a * (- 1) \<le> ?a * cos x" using a by (rule mult_left_mono)
  moreover have "0 < (d / 2 + d / 2 * (1 - 0.6 * ratio)) / 2 - ?a"
  proof -
    have "(d / 2 + d / 2 * (1 - 0.6 * ratio)) / 2 - ?a = d / 2 * (1 - 0.6 * ratio)"
      by (simp add: field_simps)
    moreover have "0 < d / 2 * (1 - 0.6 * ratio)" using assms by simp
    ultimately show ?thesis by simp
  qed
  ultimately show ?thesis by linarith
qed

lemma polygon_mod_range:
  assumes "0 < (b::real)"
  shows "0 \<le> (a::real) - b * of_int \<lfloor>a / b\<rfloor>" "a - b * of_int \<lfloor>a / b\<rfloor> < b"
proof -
  have 1: "of_int \<lfloor>a / b\<rfloor> \<le> a / b" by simp
  have 2: "a / b < of_int \<lfloor>a / b\<rfloor> + 1" by linarith
  from assms have "of_int \<lfloor>a / b\<rfloor> * b \<le> a"
    using 1 by (simp only: pos_le_divide_eq)
  then show "0 \<le> a - b * of_int \<lfloor>a / b\<rfloor>" by (simp add: mult.commute)
  from assms have "a < (of_int \<lfloor>a / b\<rfloor> + 1) * b"
    using 2 by (simp only: pos_divide_less_eq)
  then show "a - b * of_int \<lfloor>a / b\<rfloor> < b" by (simp add: algebra_simps)
qed


lemma lobed_nth:
  "i < N \<Longrightarrow> create_lobed_profile d l ratio N ! i =
     (((d / 2 + d / 2 * (1 - 0.6 * ratio)) / 2
        + (d / 2 - d / 2 * (1 - 0.6 * ratio)) / 2 * cos (l * sample_angle i N)) * cos (sample_angle i N),
      ((d / 2 + d / 2 * (1 - 0.6 * ratio)) / 2
        + (d / 2 - d / 2 * (1 - 0.6 * ratio)) / 2 * cos (l * sample_angle i N)) * sin (sample_angle i N))"
  by (simp add: create_lobed_profile_def Let_def)

lemma d_shaft_nth:
  "i < N \<Longrightarrow> create_d_shaft_profile d f N ! i =
     (if d / 2 * cos (sample_angle i N) > f - d / 2
      then (f - d / 2, (f - d / 2) * tan (sample_angle i N))
      else (d / 2 * cos (sample_angle i N), d / 2 * sin (sample_angle i N)))"
  by (simp add: create_d_shaft_profile_def Let_def)

lemma circle_on_ray:
  assumes "0 < d" "i < N"
  shows "\<exists>r>0. create_circle_profile d N ! i = (r * cos (sample_angle i N), r * sin (sample_angle i N))"
  using assms by (intro exI[of _ "d / 2"]) (simp add: circle_nth)

lemma lobed_on_ray:
  assumes "0 < d" "0 \<le> ratio" "ratio \<le> 1" "i < N"
  shows "\<exists>r>0. create_lobed_profile d l ratio N ! i
           = (r * cos (sample_angle i N), r * sin (sample_angle i N))"
  using lobed_radius_pos[OF assms(1-3)] assms(4) by (auto simp: lobed_nth)

lemma d_shaft_on_ray:
  assumes "0 < d" "0 < f - d / 2" "i < N"
  shows "\<exists>r>0. create_d_shaft_profile d f N ! i
           = (r * cos (sample_angle i N), r * sin (sample_angle i N))"
proof (cases "d / 2 * cos (sample_angle i N) > f - d / 2")
  case True
  let ?t = "sample_angle i N"
  from True assms have "0 < d / 2 * cos ?t" by linarith
  with assms(1) have c: "0 < cos ?t" by (simp add: zero_less_mult_iff)
  have "create_d_shaft_profile d f N ! i = (f - d / 2, (f - d / 2) * tan ?t)"
    using True assms(3) by (simp add: d_shaft_nth)
  moreover have "(f - d / 2) / cos ?t * cos ?t = f - d / 2" using c by simp
  moreover have "(f - d / 2) / cos ?t * sin ?t = (f - d / 2) * tan ?t"
    by (simp add: tan_def)
  moreover have "0 < (f - d / 2) / cos ?t" using c assms(2) by simp
  ultimately show ?thesis by metis
next
  case False
  then show ?thesis using assms by (intro exI[of _ "d / 2"]) (simp add: d_shaft_nth)
qed

lemma sector_bounds:
  fixes m b :: real
  assumes "0 \<le> m" "m < b" "b \<le> 2 * pi / 3"
  shows "- (pi / 2) < m - b / 2" "m - b / 2 < pi / 2"
  using assms pi_gt_zero by linarith+

lemma polygon_sample:
  assumes "0 < d" "3 \<le> sides"
  shows "\<exists>pt. bind_err (py_mod (t - 0) (2 * pi / sides)) (\<lambda>angle_in_sector.
            bind_err (py_div (d / 2) (cos (angle_in_sector - 2 * pi / sides / 2))) (\<lambda>r.
              Inr (r * cos t, r * sin t))) = Inr pt
          \<and> (\<exists>r>0. pt = (r * cos t, r * sin t))"
proof -
  let ?b = "2 * pi / sides"
  let ?m = "t - ?b * of_int \<lfloor>t / ?b\<rfloor>"
  have b: "0 < ?b" using assms by simp
  have b3: "?b \<le> 2 * pi / 3" using assms(2) by (intro divide_left_mono) auto
  have m: "0 \<le> ?m" "?m < ?b" using polygon_mod_range[OF b, of t] by auto
  have lo: "- (pi / 2) < ?m - ?b / 2" using m b3 by (rule sector_bounds(1))
  have hi: "?m - ?b / 2 < pi / 2" using m b3 by (rule sector_bounds(2))
  have c: "0 < cos (?m - ?b / 2)" using lo hi by (rule cos_gt_zero_pi)
  have r: "0 < d / 2 / cos (?m - ?b / 2)" using c assms(1) by simp
  have 1: "py_mod (t - 0) ?b = Inr ?m" using assms(2) by (simp add: py_mod_def)
  have 2: "py_div (d / 2) (cos (?m - ?b / 2)) = Inr (d / 2 / cos (?m - ?b / 2))"
    using c by (simp add: py_div_def)
  show ?thesis unfolding 1 bind_err.simps 2 using r by blast
qed

lemma polygon_ok:
  assumes "0 < d" "3 \<le> sides"
  shows "\<exists>ps. create_polygon_profile d sides N = Inr ps \<and> length ps = N
           \<and> (\<forall>i<N. \<exists>r>0. ps ! i = (r * cos (sample_angle i N), r * sin (sample_angle i N)))"
proof -
  have pd: "py_div (2 * pi) sides = Inr (2 * pi / sides)"
    using assms(2) by (simp add: py_div_def)
  let ?f = "\<lambda>i. 
          bind_err (py_mod (sample_angle i N - 0) (2 * pi / sides)) (\<lambda>angle_in_sector.
            bind_err (py_div (d / 2) (cos (angle_in_sector - 2 * pi / sides / 2))) (\<lambda>r.
              Inr (r * cos (sample_angle i N), r * sin (sample_angle i N))))"
  have "\<exists>ys. map_err ?f [0..<N] = Inr ys \<and> length ys = length [0..<N]
          \<and> (\<forall>i<length [0..<N]. (\<lambda>j pt. \<exists>r>0. pt = (r * cos (sample_angle j N), r * sin (sample_angle j N))) ([0..<N] ! i) (ys ! i))"
    by (rule map_err_Inr_all) (rule polygon_sample[OF assms])
  then obtain ys where ys: "map_err ?f [0..<N] = Inr ys" "length ys = length [0..<N]"
    "\<forall>i<length [0..<N]. \<exists>r>0. ys ! i
        = (r * cos (sample_angle ([0..<N] ! i) N), r * sin (sample_angle ([0..<N] ! i) N))"
    by blast
  have len: "length ys = N" using ys(2) by simp
  have pts: "\<forall>i<N. \<exists>r>0. ys ! i = (r * cos (sample_angle i N), r * sin (sample_angle i N))"
    using ys(3) by simp
  have "create_polygon_profile d sides N = Inr ys"
    unfolding create_polygon_profile_def Let_def pd bind_err.simps by (rule ys(1))
  with len pts show ?thesis by blast
qed

lemma sample_angle_mono:
  assumes "i < j" "j < N"
  shows "0 \<le> sample_angle i N" "sample_angle i N < sample_angle j N" "sample_angle j N < 2 * pi"
proof -
  have N: "0 < real N" using assms by simp
  show "0 \<le> sample_angle i N" by (simp add: sample_angle_def)
  have "2 * pi * real i < 2 * pi * real j" using assms(1) by simp
  then show "sample_angle i N < sample_angle j N"
    unfolding sample_angle_def using N by (simp only: divide_strict_right_mono)
  have "2 * pi * real j < 2 * pi * real N" using assms(2) by simp
  then have "2 * pi * real j / real N < 2 * pi * real N / real N"
    using N by (simp only: divide_strict_right_mono)
  then show "sample_angle j N < 2 * pi" using N by (simp add: sample_angle_def)
qed


lemma angle_orderedI:
  assumes "length ps = N"
    and "\<And>i. i < N \<Longrightarrow> \<exists>r>0. ps ! i = (r * cos (sample_angle i N), r * sin (sample_angle i N))"
  shows "angle_ordered N ps"
  unfolding angle_ordered_def using assms sample_angle_mono by blast

text \<open>
  Claim C4. For a segment count \<open>N \<ge> 3\<close>, a positive diameter, a protrusion ratio in
  \<open>[0, 1]\<close>, at least three sides and a positive D-shaft cut distance, each of the four
  profile generators returns exactly \<open>N\<close> points, point \<open>i\<close> lies at angle \<open>2\<pi>i/N\<close>
  about the origin, and these angles increase strictly with \<open>i\<close>.
\<close>

theorem profiles_angle_ordered:
  assumes "3 \<le> N" and "0 < d" and "0 \<le> ratio" and "ratio \<le> 1" and "3 \<le> sides"
    and "0 < f - d / 2"
  shows "angle_ordered N (create_circle_profile d N)
       \<and> angle_ordered N (create_lobed_profile d l ratio N)
       \<and> (\<exists>ps. create_polygon_profile d sides N = Inr ps \<and> angle_ordered N ps)
       \<and> angle_ordered N (create_d_shaft_profile d f N)"
proof (intro conjI)
  show "angle_ordered N (create_circle_profile d N)"
    using assms(2) by (intro angle_orderedI length_circle circle_on_ray)
  show "angle_ordered N (create_lobed_profile d l ratio N)"
    using assms(2-4) by (intro angle_orderedI length_lobed lobed_on_ray)
  show "angle_ordered N (create_d_shaft_profile d f N)"
    using assms(2,6) by (intro angle_orderedI length_d_shaft d_shaft_on_ray)
  from polygon_ok[OF assms(2,5), of N] obtain ps where
    ps: "create_polygon_profile d sides N = Inr ps" "length ps = N"
    "\<forall>i<N. \<exists>r>0. ps ! i = (r * cos (sample_angle i N), r * sin (sample_angle i N))"
    by blast
  have "angle_ordered N ps" using ps(2,3) by (intro angle_orderedI) auto
  with ps(1) show "\<exists>ps. create_polygon_profile d sides N = Inr ps \<and> angle_ordered N ps"
    by blast
qed

theorem profiles_angle_ordered_witness:
  "(3::nat) \<le> 4 \<and> (0::real) < 2 \<and> (0::real) \<le> 1 / 2 \<and> (1::real) / 2 \<le> 1 \<and> (3::real) \<le> 6
   \<and> (0::real) < 3 / 2 - 2 / 2
   \<and> angle_ordered 4 (create_circle_profile 2 4)
   \<and> angle_ordered 4 (create_lobed_profile 2 5 (1 / 2) 4)
   \<and> (\<exists>ps. create_polygon_profile 2 6 4 = Inr ps \<and> angle_ordered 4 ps)
   \<and> angle_ordered 4 (create_d_shaft_profile 2 (3 / 2) 4)"
  using profiles_angle_ordered[of 4 2 "1 / 2" 6 "3 / 2" 5] by simp

text \<open>
  Claim C5. For every diameter, flat-to-opposite distance and segment count, no point of
  the D-shaft profile has an x-coordinate above the cut distance
  \<open>flat_to_opposite - diameter / 2\<close>, and every circle sample whose x exceeds the cut
  distance is replaced by \<open>(cut, cut * tan \<theta>)\<close>.
\<close>

theorem d_shaft_flat_constraint:
  "(\<forall>pt\<in>set (create_d_shaft_profile d f N). fst pt \<le> f - d / 2)
   \<and> (\<forall>i<N. d / 2 * cos (sample_angle i N) > f - d / 2 \<longrightarrow>
         create_d_shaft_profile d f N ! i
           = (f - d / 2, (f - d / 2) * tan (sample_angle i N)))"
proof (intro conjI ballI allI impI)
  fix pt assume "pt \<in> set (create_d_shaft_profile d f N)"
  then obtain i where "i < N" "pt = create_d_shaft_profile d f N ! i"
    by (metis in_set_conv_nth length_d_shaft)
  then show "fst pt \<le> f - d / 2" by (simp add: d_shaft_nth)
next
  fix i assume "i < N" "f - d / 2 < d / 2 * cos (sample_angle i N)"
  then show "create_d_shaft_profile d f N ! i
           = (f - d / 2, (f - d / 2) * tan (sample_angle i N))"
    by (simp add: d_shaft_nth)
qed

theorem d_shaft_flat_constraint_witness:
  "list_all (\<lambda>pt. fst pt \<le> 9 / 2 - 6 / 2) (create_d_shaft_profile 6 (9 / 2) 4)
   \<and> create_d_shaft_profile 6 (9 / 2) 4 ! 0 = (3 / 2, 0)"
proof -
  have "(6::real) / 2 * cos (sample_angle 0 4) > 9 / 2 - 6 / 2"
    by (simp add: sample_angle_def)
  with d_shaft_flat_constraint[of 6 "9 / 2" 4] show ?thesis
    by (simp add: sample_angle_def list_all_iff)
qed

subsubsection \<open>Rings and mesh state\<close>

lemma map_err_all:
  assumes "\<And>x. x \<in> set xs \<Longrightarrow> \<exists>y. f x = Inr y \<and> Q y"
  shows "\<exists>ys. map_err f xs = Inr ys \<and> length ys = length xs \<and> (\<forall>y\<in>set ys. Q y)"
proof -
  from map_err_Inr_all[of xs f "\<lambda>_ y. Q y"] assms
  obtain ys where ys: "map_err f xs = Inr ys" "length ys = length xs"
    "\<forall>i<length xs. Q (ys ! i)" by blast
  have "\<forall>y\<in>set ys. Q y" using ys(2,3) by (auto simp: in_set_conv_nth)
  with ys show ?thesis by blast
qed

lemma radial_scale_total: "\<exists>s. radial_scale mag inset = Inr s"
  by (simp add: radial_scale_def py_div_def)

lemma ring_okI: "length ring = N \<Longrightarrow> \<forall>q\<in>set ring. snd (snd q) = z \<Longrightarrow> ring_ok N ring"
  by (simp add: ring_ok_def same_z_def)

lemma inset_ring_ok:
  "\<exists>ring. inset_ring prof inset z = Inr ring \<and> ring_ok (length prof) ring"
proof -
  have "\<exists>ys. inset_ring prof inset z = Inr ys \<and> length ys = length prof
          \<and> (\<forall>y\<in>set ys. snd (snd y) = z)"
    unfolding inset_ring_def
  proof (rule map_err_all)
    fix x
    obtain s where "radial_scale (sqrt ((fst x)\<^sup>2 + (snd x)\<^sup>2)) inset = Inr s"
      using radial_scale_total by blast
    then show "\<exists>y. (let mag = sqrt ((fst x)\<^sup>2 + (snd x)\<^sup>2) in
           bind_err (radial_scale mag inset) (\<lambda>scale. Inr (fst x * scale, snd x * scale, z))) = Inr y
         \<and> snd (snd y) = z"
      by (simp add: Let_def)
  qed
  then show ?thesis using ring_okI by blast
qed

lemma ring_at_ok: "ring_ok (length prof) (ring_at z prof)"
  by (rule ring_okI) (auto simp: ring_at_def)

lemma length_body_profile: "length (body_profile p) = segments p"
  by (simp add: body_profile_def length_lobed length_circle Let_def)

lemma length_boss_profile: "length (boss_profile p) = segments p"
  by (simp add: boss_profile_def length_circle)

lemma length_shaft_profile: "length (shaft_profile p) = segments p"
  by (simp add: shaft_profile_def length_d_shaft length_circle Let_def)

lemma boss_rings_ok: "\<forall>ring\<in>set (boss_rings p). ring_ok (segments p) ring"
  using ring_at_ok[where prof="boss_profile p"] by (auto simp: boss_rings_def length_boss_profile)

lemma bottom_rings_ok:
  "\<exists>rs. bottom_rings p = Inr rs \<and> (\<forall>ring\<in>set rs. ring_ok (segments p) ring)"
proof (cases "has_bottom_fillet p")
  case True
  have "\<exists>rs. bottom_rings p = Inr rs \<and> length rs = length [0..<7::nat]
          \<and> (\<forall>ring\<in>set rs. ring_ok (segments p) ring)"
    unfolding bottom_rings_def if_P[OF True]
    by (rule map_err_all) (use inset_ring_ok[of "body_profile p"] in \<open>simp add: Let_def length_body_profile\<close>)
  then show ?thesis by blast
next
  case False
  then show ?thesis
    using ring_at_ok[where prof="body_profile p"]
    by (simp add: bottom_rings_def length_body_profile)
qed

lemma dome_rings_ok:
  "\<exists>rs. dome_rings p = Inr rs \<and> (\<forall>ring\<in>set rs. ring_ok (segments p) ring)"
proof -
  have "\<exists>rs. dome_rings p = Inr rs \<and> length rs = length [1..<13::nat]
          \<and> (\<forall>ring\<in>set rs. ring_ok (segments p) ring)"
    unfolding dome_rings_def Let_def
    by (rule map_err_all)
      (auto simp: py_div_def intro!: ring_okI simp: length_body_profile)
  then show ?thesis by blast
qed

lemma fillet_rings_ok:
  "\<exists>rs. fillet_rings p = Inr rs \<and> (\<forall>ring\<in>set rs. ring_ok (segments p) ring)"
proof -
  have "\<exists>rs. fillet_rings p = Inr rs \<and> length rs = length [1..<9::nat]
          \<and> (\<forall>ring\<in>set rs. ring_ok (segments p) ring)"
    unfolding fillet_rings_def Let_def
    by (rule map_err_all)
      (use inset_ring_ok[of "body_profile p"] in \<open>auto simp: py_div_def length_body_profile\<close>)
  then show ?thesis by blast
qed

lemma top_rings_ok:
  "\<exists>rs. top_rings p = Inr rs \<and> (\<forall>ring\<in>set rs. ring_ok (segments p) ring)"
  using dome_rings_ok[of p] fillet_rings_ok[of p] by (simp add: top_rings_def)

lemma outer_rings_ok:
  "\<exists>rings. outer_rings p = Inr rings \<and> rings \<noteq> []
     \<and> (\<forall>ring\<in>set rings. ring_ok (segments p) ring)"
proof -
  obtain b where b: "bottom_rings p = Inr b" "\<forall>ring\<in>set b. ring_ok (segments p) ring"
    using bottom_rings_ok by blast
  obtain t where t: "top_rings p = Inr t" "\<forall>ring\<in>set t. ring_ok (segments p) ring"
    using top_rings_ok by blast
  have m: "ring_ok (segments p) (ring_at (z_fillet_start p) (body_profile p))"
    using ring_at_ok[where prof="body_profile p"] by (simp add: length_body_profile)
  show ?thesis using b t m boss_rings_ok[of p] by (auto simp: outer_rings_def)
qed


lemma bind_err_Inr_iff:
  "bind_err m f = Inr y \<longleftrightarrow> (\<exists>x. m = Inr x \<and> f x = Inr y)"
  by (cases m) auto

lemma fold_err_inv:
  assumes "\<And>x s s'. x \<in> set xs \<Longrightarrow> I s \<Longrightarrow> f x s = Inr s' \<Longrightarrow> I s'"
    and "I s" and "fold_err f xs s = Inr s'"
  shows "I s'"
  using assms
proof (induction xs arbitrary: s)
  case Nil
  then show ?case by simp
next
  case (Cons x xs)
  from Cons.prems(3) obtain s1 where s1: "f x s = Inr s1" "fold_err f xs s1 = Inr s'"
    by (auto simp: bind_err_Inr_iff)
  have "I s1" using Cons.prems(1)[of x s s1] Cons.prems(2) s1(1) by simp
  then show ?case using Cons.IH[of s1] Cons.prems(1) s1(2) by auto
qed

lemma fold_err_count:
  assumes "\<And>x s. x \<in> set xs \<Longrightarrow> \<exists>s'. f x s = Inr s' \<and> nv s' = nv s + a \<and> nf s' = nf s + b"
  shows "\<exists>s'. fold_err f xs s = Inr s' \<and> nv s' = nv s + a * length xs
           \<and> nf s' = nf s + b * length xs"
  using assms
proof (induction xs arbitrary: s)
  case Nil
  then show ?case by simp
next
  case (Cons x xs)
  from Cons.prems[of x s] obtain s1 where s1: "f x s = Inr s1" "nv s1 = nv s + a" "nf s1 = nf s + b"
    by auto
  from Cons.IH[of s1] Cons.prems obtain s' where "fold_err f xs s1 = Inr s'"
    "nv s' = nv s1 + a * length xs" "nf s' = nf s1 + b * length xs" by auto
  with s1 show ?case by (simp add: algebra_simps)
qed

lemma faces_ok_add_quad: "faces_ok st \<Longrightarrow> faces_ok (add_quad p1 p2 p3 p4 flip st)"
  by (cases st) (auto simp: faces_ok_def add_quad_def Let_def)

lemma faces_ok_add_quad_pair:
  "faces_ok (vs, fs) \<Longrightarrow> add_quad p1 p2 p3 p4 flip (vs, fs) = (vs', fs')
     \<Longrightarrow> faces_ok (vs', fs')"
  by (metis faces_ok_add_quad)

lemma add_quad_count:
  "length (fst (add_quad p1 p2 p3 p4 flip st)) = length (fst st) + 4"
  "length (snd (add_quad p1 p2 p3 p4 flip st)) = length (snd st) + 2"
  by (cases st; simp add: add_quad_def Let_def)+

lemma nth_err_Inr: "i < length xs \<Longrightarrow> nth_err xs i = Inr (xs ! i)"
  by (simp add: nth_err_def)

lemma quad_strip_faces_ok:
  assumes "faces_ok st" "quad_strip N flip a b st = Inr st'"
  shows "faces_ok st'"
  using _ assms(1) assms(2)[unfolded quad_strip_def]
  by (rule fold_err_inv) (auto simp: Let_def bind_err_Inr_iff intro: faces_ok_add_quad_pair)

lemma quad_strip_rev_faces_ok:
  assumes "faces_ok st" "quad_strip_rev N a b st = Inr st'"
  shows "faces_ok st'"
  using _ assms(1) assms(2)[unfolded quad_strip_rev_def]
  by (rule fold_err_inv) (auto simp: Let_def bind_err_Inr_iff intro: faces_ok_add_quad_pair)

lemma stitch_rings_faces_ok:
  assumes "faces_ok st" "stitch_rings N rings st = Inr st'"
  shows "faces_ok st'"
  using _ assms(1) assms(2)[unfolded stitch_rings_def]
  by (rule fold_err_inv) (auto simp: bind_err_Inr_iff quad_strip_faces_ok)

lemma apex_fan_faces_ok:
  assumes "faces_ok st" "apex_fan N c ring st = Inr st'"
  shows "faces_ok st'"
proof -
  obtain vs fs where st: "st = (vs, fs)" by (cases st)
  let ?I = "\<lambda>s. faces_ok s \<and> length vs < length (fst s)"
  have "?I st'"
  proof (rule fold_err_inv[where I = ?I])
    show "fold_err (\<lambda>i s. case s of (vs', fs') \<Rightarrow>
            let next_i = (i + 1) mod N; idx_o1 = length vs'; idx_o2 = idx_o1 + 1 in
            bind_err (nth_err ring i) (\<lambda>a. bind_err (nth_err ring next_i) (\<lambda>b.
              Inr (vs' @ [a, b], fs' @ [(length vs, idx_o1, idx_o2)]))))
          [0..<N] (vs @ [c], fs) = Inr st'"
      using assms(2) by (simp add: apex_fan_def st Let_def)
    show "?I (vs @ [c], fs)" using assms(1) by (auto simp: faces_ok_def st)
  next
    fix x s s'
    assume "?I s" and "(case s of (vs', fs') \<Rightarrow>
            let next_i = (x + 1) mod N; idx_o1 = length vs'; idx_o2 = idx_o1 + 1 in
            bind_err (nth_err ring x) (\<lambda>a. bind_err (nth_err ring next_i) (\<lambda>b.
              Inr (vs' @ [a, b], fs' @ [(length vs, idx_o1, idx_o2)])))) = Inr s'"
    then show "?I s'"
      by (cases s) (fastforce simp: Let_def bind_err_Inr_iff faces_ok_def)
  qed
  then show ?thesis by simp
qed

lemma quad_strip_count:
  assumes "length a = N" "length b = N"
  shows "\<exists>st'. quad_strip N flip a b st = Inr st'
           \<and> length (fst st') = length (fst st) + 4 * length [0..<N]
           \<and> length (snd st') = length (snd st) + 2 * length [0..<N]"
  unfolding quad_strip_def
  by (rule fold_err_count)
    (use assms in \<open>auto simp: Let_def nth_err_Inr add_quad_count\<close>)

lemma quad_strip_rev_count:
  assumes "length a = N" "length b = N"
  shows "\<exists>st'. quad_strip_rev N a b st = Inr st'
           \<and> length (fst st') = length (fst st) + 4 * length [0..<N]
           \<and> length (snd st') = length (snd st) + 2 * length [0..<N]"
  unfolding quad_strip_rev_def
  by (rule fold_err_count)
    (use assms in \<open>auto simp: Let_def nth_err_Inr add_quad_count\<close>)

lemma apex_fan_count:
  assumes "length ring = N"
  shows "\<exists>st'. apex_fan N c ring st = Inr st'
           \<and> length (fst st') = length (fst st) + 1 + 2 * N
           \<and> length (snd st') = length (snd st) + N"
proof -
  obtain vs fs where st: "st = (vs, fs)" by (cases st)
  have "\<exists>s'. fold_err (\<lambda>i s. case s of (vs', fs') \<Rightarrow>
            let next_i = (i + 1) mod N; idx_o1 = length vs'; idx_o2 = idx_o1 + 1 in
            bind_err (nth_err ring i) (\<lambda>a. bind_err (nth_err ring next_i) (\<lambda>b.
              Inr (vs' @ [a, b], fs' @ [(length vs, idx_o1, idx_o2)]))))
          [0..<N] (vs @ [c], fs) = Inr s'
       \<and> length (fst s') = length (fst (vs @ [c], fs)) + 2 * length [0..<N]
       \<and> length (snd s') = length (snd (vs @ [c], fs)) + 1 * length [0..<N]"
    by (rule fold_err_count) (use assms in \<open>auto simp: Let_def nth_err_Inr\<close>)
  then show ?thesis by (simp add: apex_fan_def st Let_def)
qed

lemma stitch_rings_count:
  assumes "\<forall>ring\<in>set rings. length ring = N"
  shows "\<exists>st'. stitch_rings N rings st = Inr st'
           \<and> length (fst st') = length (fst st) + 4 * N * (length rings - 1)
           \<and> length (snd st') = length (snd st) + 2 * N * (length rings - 1)"
proof -
  have "\<exists>st'. stitch_rings N rings st = Inr st'
           \<and> length (fst st') = length (fst st) + 4 * N * length [0..<length rings - 1]
           \<and> length (snd st') = length (snd st) + 2 * N * length [0..<length rings - 1]"
    unfolding stitch_rings_def
  proof (rule fold_err_count)
    fix r s assume "r \<in> set [0..<length rings - 1]"
    then have r: "r < length rings" "r + 1 < length rings" by auto
    then have "length (rings ! r) = N" "length (rings ! (r + 1)) = N"
      using assms nth_mem by blast+
    from quad_strip_count[OF this, of False s] r
    show "\<exists>s'. bind_err (nth_err rings r) (\<lambda>ring_curr.
             bind_err (nth_err rings (r + 1)) (\<lambda>ring_next.
               quad_strip N False ring_curr ring_next s)) = Inr s'
            \<and> length (fst s') = length (fst s) + 4 * N
            \<and> length (snd s') = length (snd s) + 2 * N"
      by (simp add: nth_err_Inr)
  qed
  then show ?thesis by simp
qed

subsubsection \<open>Face indices through the builder\<close>

lemma dome_closure_faces_ok:
  assumes "faces_ok st" "dome_closure p ring z st = Inr (st', zl)"
  shows "faces_ok st'"
proof -
  from assms(2) obtain q where q: "nth_err ring 0 = Inr q"
    and r: "(if planar_radius q > 0.1
       then bind_err (apex_fan (segments p) (0, 0, z) ring st) (\<lambda>st1.
              Inr (st1, initial_shaft_top_limit p))
       else Inr (st, initial_shaft_top_limit p)) = Inr (st', zl)"
    unfolding dome_closure_def Let_def bind_err_Inr_iff by blast
  show ?thesis
  proof (cases "planar_radius q > 0.1")
    case True
    with r have "apex_fan (segments p) (0, 0, z) ring st = Inr st'"
      by (auto simp: bind_err_Inr_iff)
    with assms(1) show ?thesis by (rule apex_fan_faces_ok)
  next
    case False
    with r assms(1) show ?thesis by simp
  qed
qed


lemma recess_closure_faces_ok:
  assumes "faces_ok st" "recess_closure p ring z st = Inr (st', zl)"
  shows "faces_ok st'"
proof -
  let ?start = "ring_at z (create_circle_profile (recess_diameter p) (segments p))"
  from assms(2) obtain st1 st2 final_ring q where
    1: "quad_strip (segments p) False ring ?start st = Inr st1"
    and 2: "stitch_rings (segments p) (dish_rings p z) st1 = Inr st2"
    and r: "(if \<not> is_open p \<and> planar_radius q > 0.1
        then bind_err (apex_fan (segments p) (0, 0, snd (snd q)) final_ring st2) (\<lambda>st3.
               Inr (st3, snd (snd q)))
        else Inr (st2, snd (snd q))) = Inr (st', zl)"
    unfolding recess_closure_def Let_def bind_err_Inr_iff by blast
  have "faces_ok st1" using assms(1) 1 by (rule quad_strip_faces_ok)
  then have ok2: "faces_ok st2" using 2 by (rule stitch_rings_faces_ok)
  show ?thesis
  proof (cases "\<not> is_open p \<and> planar_radius q > 0.1")
    case True
    with r have "apex_fan (segments p) (0, 0, snd (snd q)) final_ring st2 = Inr st'"
      by (auto simp: bind_err_Inr_iff)
    with ok2 show ?thesis by (rule apex_fan_faces_ok)
  next
    case False
    with r ok2 show ?thesis by auto
  qed
qed

lemma plain_closure_faces_ok:
  assumes "faces_ok st" "plain_closure p ring z st = Inr (st', zl)"
  shows "faces_ok st'"
proof (cases "is_open p")
  case True
  with assms(2) obtain prof where
    "quad_strip (segments p) False ring (ring_at z prof) st = Inr st'"
    unfolding plain_closure_def Let_def by (auto simp: bind_err_Inr_iff)
  with assms(1) show ?thesis by (rule quad_strip_faces_ok)
next
  case False
  with assms(2) have "apex_fan (segments p) (0, 0, z) ring st = Inr st'"
    unfolding plain_closure_def by (auto simp: bind_err_Inr_iff)
  with assms(1) show ?thesis by (rule apex_fan_faces_ok)
qed

lemma top_closure_faces_ok:
  assumes "faces_ok st" "top_closure p rings st = Inr (st', zl)"
  shows "faces_ok st'"
proof -
  consider (dome) ring z where "dome_closure p ring z st = Inr (st', zl)"
    | (recess) ring z where "recess_closure p ring z st = Inr (st', zl)"
    | (plain) ring z where "plain_closure p ring z st = Inr (st', zl)"
    using assms(2) unfolding top_closure_def Let_def bind_err_Inr_iff
    by (auto split: if_splits)
  then show ?thesis
  proof cases
    case dome
    with assms(1) show ?thesis by (rule dome_closure_faces_ok)
  next
    case recess
    with assms(1) show ?thesis by (rule recess_closure_faces_ok)
  next
    case plain
    with assms(1) show ?thesis by (rule plain_closure_faces_ok)
  qed
qed

lemma nut_pocket_faces_ok:
  assumes "faces_ok st" "nut_pocket p st = Inr st'"
  shows "faces_ok st'"
proof (cases "shaft_type p = ''Nut Trap'' \<and> nut_truthy (nut_info p)")
  case True
  with assms(2) obtain nh trap_poly where
    r: "(if nut_location p = ''Bottom''
         then bind_err (quad_strip (segments p) True
                          (ring_at 0 trap_poly) (ring_at (nh + 0.2) trap_poly) st) (\<lambda>st1.
                quad_strip_rev (segments p) (ring_at (nh + 0.2) trap_poly)
                  (ring_at (nh + 0.2) (create_circle_profile (shaft_dia p) (segments p))) st1)
         else Inr st) = Inr st'"
    unfolding nut_pocket_def Let_def by (auto simp: bind_err_Inr_iff)
  show ?thesis
  proof (cases "nut_location p = ''Bottom''")
    case True
    with r obtain st1 where
      1: "quad_strip (segments p) True (ring_at 0 trap_poly) (ring_at (nh + 0.2) trap_poly) st
            = Inr st1"
      and 2: "quad_strip_rev (segments p) (ring_at (nh + 0.2) trap_poly)
                (ring_at (nh + 0.2) (create_circle_profile (shaft_dia p) (segments p))) st1
            = Inr st'"
      by (auto simp: bind_err_Inr_iff)
    have "faces_ok st1" using assms(1) 1 by (rule quad_strip_faces_ok)
    then show ?thesis using 2 by (rule quad_strip_rev_faces_ok)
  next
    case False
    with r assms(1) show ?thesis by simp
  qed
next
  case False
  with assms show ?thesis unfolding nut_pocket_def by auto
qed

lemma shaft_bore_faces_ok:
  assumes "faces_ok st" "shaft_bore p zl st = Inr st'"
  shows "faces_ok st'"
proof -
  let ?zt = "bore_z_top p zl"
  from assms(2) obtain z_bot where
    r: "(if ?zt > z_bot
        then bind_err (quad_strip (segments p) True
                         (ring_at z_bot (shaft_profile p)) (ring_at ?zt (shaft_profile p)) st)
               (\<lambda>st1.
                 if \<not> through_hole p \<and> shaft_type p \<noteq> ''Nut Trap''
                 then apex_fan (segments p) (0, 0, ?zt) (ring_at ?zt (shaft_profile p)) st1
                 else Inr st1)
        else Inr st) = Inr st'"
    unfolding shaft_bore_def Let_def bind_err_Inr_iff by blast
  show ?thesis
  proof (cases "?zt > z_bot")
    case True
    with r obtain st1 where
      1: "quad_strip (segments p) True
            (ring_at z_bot (shaft_profile p)) (ring_at ?zt (shaft_profile p)) st = Inr st1"
      and 2: "(if \<not> through_hole p \<and> shaft_type p \<noteq> ''Nut Trap''
                 then apex_fan (segments p) (0, 0, ?zt) (ring_at ?zt (shaft_profile p)) st1
                 else Inr st1) = Inr st'"
      by (auto simp: bind_err_Inr_iff)
    have ok1: "faces_ok st1" using assms(1) 1 by (rule quad_strip_faces_ok)
    show ?thesis
    proof (cases "\<not> through_hole p \<and> shaft_type p \<noteq> ''Nut Trap''")
      case True
      with 2 have "apex_fan (segments p) (0, 0, ?zt) (ring_at ?zt (shaft_profile p)) st1
                     = Inr st'" by simp
      with ok1 show ?thesis by (rule apex_fan_faces_ok)
    next
      case False
      with 2 ok1 show ?thesis by auto
    qed
  next
    case False
    with r assms(1) show ?thesis by simp
  qed
qed

lemma base_cap_faces_ok:
  assumes "faces_ok st" "base_cap p rings st = Inr st'"
  shows "faces_ok st'"
proof -
  from assms(2) obtain a b where "quad_strip_rev (segments p) a b st = Inr st'"
    unfolding base_cap_def bind_err_Inr_iff by blast
  with assms(1) show ?thesis by (rule quad_strip_rev_faces_ok)
qed

lemma faces_ok_empty: "faces_ok ([], [])"
  by (simp add: faces_ok_def)

lemma knob_faces_ok:
  assumes "knob_faces p = Inr st"
  shows "faces_ok st"
proof -
  from assms obtain rings st1 st2z st3 st4 where
    1: "stitch_rings (segments p) rings ([], []) = Inr st1"
    and 2: "top_closure p rings st1 = Inr st2z"
    and 3: "nut_pocket p (fst st2z) = Inr st3"
    and 4: "shaft_bore p (snd st2z) st3 = Inr st4"
    and 5: "base_cap p rings st4 = Inr st"
    unfolding knob_faces_def bind_err_Inr_iff case_prod_beta by blast
  have "faces_ok st1" using faces_ok_empty 1 by (rule stitch_rings_faces_ok)
  moreover have "top_closure p rings st1 = Inr (fst st2z, snd st2z)" using 2 by simp
  ultimately have "faces_ok (fst st2z)" by (rule top_closure_faces_ok)
  then have "faces_ok st3" using 3 by (rule nut_pocket_faces_ok)
  then have "faces_ok st4" using 4 by (rule shaft_bore_faces_ok)
  then show ?thesis using 5 by (rule base_cap_faces_ok)
qed

lemma assemble_ok:
  assumes "faces_ok st"
  shows "\<exists>ts. assemble st = Inr ts \<and> length ts = length (snd st)"
proof -
  obtain vs fs where st: "st = (vs, fs)" by (cases st)
  let ?f = "\<lambda>face. case face of (a, b, c) \<Rightarrow>
          bind_err (nth_err vs a) (\<lambda>va.
          bind_err (nth_err vs b) (\<lambda>vb.
          bind_err (nth_err vs c) (\<lambda>vc. Inr (va, vb, vc))))"
  have "\<exists>ts. map_err ?f fs = Inr ts \<and> length ts = length fs \<and> (\<forall>t\<in>set ts. True)"
  proof (rule map_err_all)
    fix face assume f: "face \<in> set fs"
    obtain a b c where face: "face = (a, b, c)" by (cases face)
    from f assms have "a < length vs" "b < length vs" "c < length vs"
      unfolding faces_ok_def st face by auto
    then have "?f face = Inr (vs ! a, vs ! b, vs ! c)" by (simp add: face nth_err_Inr)
    then show "\<exists>y. ?f face = Inr y \<and> True" by blast
  qed
  then show ?thesis by (simp add: assemble_def st)
qed

subsubsection \<open>The plain round knob\<close>

lemma plain_outer_rings:
  assumes "plain_round_knob p"
  shows "outer_rings p = Inr [ring_at 0 (body_profile p), ring_at (knob_height p) (body_profile p)]"
  using assms
  by (simp add: plain_round_knob_def outer_rings_def bottom_rings_def top_rings_def
      boss_rings_def has_bottom_fillet_def z_base_def z_fillet_start_def current_z_def
      z_top_abs_def)

lemma last_err_Inr: "xs \<noteq> [] \<Longrightarrow> last_err xs = Inr (last xs)"
  by (simp add: last_err_def)

lemma length_ring_at: "length (ring_at z prof) = length prof"
  by (simp add: ring_at_def)

lemma plain_top_closure:
  assumes "plain_round_knob p" "0 < segments p"
  shows "\<exists>st'. top_closure p [ring_at 0 (body_profile p), ring_at (knob_height p) (body_profile p)] st
            = Inr (st', hole_depth p)
          \<and> length (snd st') = length (snd st) + segments p"
proof -
  let ?top = "ring_at (knob_height p) (body_profile p)"
  have len: "length ?top = segments p" by (simp add: length_ring_at length_body_profile)
  have z: "snd (snd (?top ! 0)) = knob_height p"
    using assms(2) by (simp add: ring_at_def length_body_profile)
  have n0: "nth_err ?top 0 = Inr (?top ! 0)" using len assms(2) by (simp add: nth_err_Inr)
  have no: "\<not> is_open p" "\<not> is_dome p" "\<not> recess_depth p > 0" "\<not> through_hole p"
    using assms(1) by (simp_all add: plain_round_knob_def is_open_def)
  from apex_fan_count[OF len, where c = "(0, 0, knob_height p)" and st = st]
  obtain st' where st': "apex_fan (segments p) (0, 0, knob_height p) ?top st = Inr st'"
    "length (snd st') = length (snd st) + segments p" by blast
  have "top_closure p [ring_at 0 (body_profile p), ?top] st = Inr (st', hole_depth p)"
    using no st'(1)
    by (simp add: top_closure_def last_err_Inr n0 z plain_closure_def
        initial_shaft_top_limit_def Let_def)
  with st'(2) show ?thesis by blast
qed

lemma plain_nut_pocket:
  assumes "plain_round_knob p"
  shows "nut_pocket p st = Inr st"
  using assms by (simp add: plain_round_knob_def nut_pocket_def)

lemma plain_shaft_bore:
  assumes "plain_round_knob p"
  shows "\<exists>st'. shaft_bore p (hole_depth p) st = Inr st'
          \<and> length (snd st') = length (snd st) + 3 * segments p"
proof -
  let ?sp = "shaft_profile p"
  have len: "length (ring_at z ?sp) = segments p" for z
    by (simp add: length_ring_at length_shaft_profile)
  from quad_strip_count[OF len[of 0] len[of "hole_depth p"], where flip = True and st = st]
  obtain st1 where st1: "quad_strip (segments p) True (ring_at 0 ?sp) (ring_at (hole_depth p) ?sp) st
      = Inr st1" "length (snd st1) = length (snd st) + 2 * segments p" by auto
  from apex_fan_count[OF len[of "hole_depth p"], where c = "(0, 0, hole_depth p)" and st = st1]
  obtain st2 where st2: "apex_fan (segments p) (0, 0, hole_depth p) (ring_at (hole_depth p) ?sp) st1
      = Inr st2" "length (snd st2) = length (snd st1) + segments p" by blast
  have "shaft_bore p (hole_depth p) st = Inr st2"
    using assms st1(1) st2(1)
    by (simp add: plain_round_knob_def shaft_bore_def bore_z_top_def bore_z_bot_def)
  with st1(2) st2(2) show ?thesis by simp
qed

lemma plain_base_cap:
  assumes "plain_round_knob p"
  shows "\<exists>st'. base_cap p [ring_at 0 (body_profile p), ring_at (knob_height p) (body_profile p)] st
            = Inr st'
          \<and> length (snd st') = length (snd st) + 2 * segments p"
proof -
  have la: "length (ring_at 0 (body_profile p)) = segments p"
    by (simp add: length_ring_at length_body_profile)
  have lb: "length (ring_at 0 (shaft_profile p)) = segments p"
    by (simp add: length_ring_at length_shaft_profile)
  from quad_strip_rev_count[OF la lb, where st = st]
  obtain st' where st': "quad_strip_rev (segments p) (ring_at 0 (body_profile p))
      (ring_at 0 (shaft_profile p)) st = Inr st'"
    "length (snd st') = length (snd st) + 2 * segments p" by auto
  have "base_cap p [ring_at 0 (body_profile p), ring_at (knob_height p) (body_profile p)] st
            = Inr st'"
    using assms st'(1) by (simp add: plain_round_knob_def base_cap_def nth_err_def)
  with st'(2) show ?thesis by blast
qed

lemma plain_knob_faces:
  assumes "plain_round_knob p" "0 < segments p"
  shows "\<exists>st. knob_faces p = Inr st \<and> length (snd st) = 8 * segments p"
proof -
  let ?rings = "[ring_at 0 (body_profile p), ring_at (knob_height p) (body_profile p)]"
  have "\<forall>ring\<in>set ?rings. length ring = segments p"
    by (simp add: length_ring_at length_body_profile)
  from stitch_rings_count[OF this, where st = "([], [])"]
  obtain st1 where st1: "stitch_rings (segments p) ?rings ([], []) = Inr st1"
    "length (snd st1) = 2 * segments p" by auto
  from plain_top_closure[OF assms, of st1]
  obtain st2 where st2: "top_closure p ?rings st1 = Inr (st2, hole_depth p)"
    "length (snd st2) = length (snd st1) + segments p" by blast
  from plain_shaft_bore[OF assms(1), of st2]
  obtain st4 where st4: "shaft_bore p (hole_depth p) st2 = Inr st4"
    "length (snd st4) = length (snd st2) + 3 * segments p" by blast
  from plain_base_cap[OF assms(1), of st4]
  obtain st5 where st5: "base_cap p ?rings st4 = Inr st5"
    "length (snd st5) = length (snd st4) + 2 * segments p" by blast
  have "knob_faces p = Inr st5"
    by (simp add: knob_faces_def plain_outer_rings[OF assms(1)] st1(1) st2(1)
        plain_nut_pocket[OF assms(1)] st4(1) st5(1))
  with st1(2) st2(2) st4(2) st5(2) show ?thesis by simp
qed

lemma plain_triangle_count:
  assumes "plain_round_knob p" "0 < segments p"
  shows "triangle_count p = Inr (8 * segments p)"
proof -
  from plain_knob_faces[OF assms] obtain st where st: "knob_faces p = Inr st"
    "length (snd st) = 8 * segments p" by blast
  from assemble_ok[OF knob_faces_ok[OF st(1)]] obtain ts where
    "assemble st = Inr ts" "length ts = length (snd st)" by blast
  with st show ?thesis by (simp add: triangle_count_def generate_knob_mesh_def)
qed

lemma no_segments_fails:
  assumes "segments p = 0"
  shows "generate_knob_mesh p = Inl IndexError"
proof -
  obtain rings where r: "outer_rings p = Inr rings" "rings \<noteq> []"
    "\<forall>ring\<in>set rings. ring_ok (segments p) ring" using outer_rings_ok by blast
  have "last rings \<in> set rings" using r(2) by simp
  then have l: "last rings = []" using r(3) assms by (auto simp: ring_ok_def)
  have "\<forall>ring\<in>set rings. length ring = 0" using r(3) assms by (simp add: ring_ok_def)
  from stitch_rings_count[OF this, where st = "([], [])"]
  obtain st1 where st1: "stitch_rings 0 rings ([], []) = Inr st1" by blast
  have "top_closure p rings st1 = Inl IndexError"
    by (simp add: top_closure_def last_err_Inr[OF r(2)] l nth_err_def)
  then show ?thesis
    using r(1) st1 assms by (simp add: generate_knob_mesh_def knob_faces_def)
qed

subsubsection \<open>Claims on counts, guards, rings and indices\<close>

lemma plain_example_plain: "plain_round_knob (plain_example N)"
  by (simp add: plain_example_def plain_round_knob_def default_params_def)

text \<open>
  Claim C1 states \<open>7 * N\<close> triangles for the plain round knob. With four segments
  the mesh has 32 triangles, not 28: the bottom annulus is built by \<open>add_quad\<close>, which
  appends two triangles per segment.
\<close>

theorem plain_knob_triangle_count_counterexample:
  "plain_round_knob (plain_example 4) \<and> segments (plain_example 4) = 4
   \<and> triangle_count (plain_example 4) = Inr 32"
  using plain_triangle_count[OF plain_example_plain, of 4]
  by (simp add: plain_example_plain) (simp add: plain_example_def)

lemma plain_example_no_segments:
  "triangle_count (plain_example 0) = Inl IndexError"
  using no_segments_fails[of "plain_example 0"]
  by (simp add: triangle_count_def) (simp add: plain_example_def)

text \<open>
  Claim C1, amended. For every segment count \<open>N \<ge> 1\<close> the plain round knob (no ridges,
  no fillets, no boss, no dome, no dish, blind round hole with
  \<open>0 < hole_depth < knob_height\<close>) has exactly \<open>8 * N\<close> triangles: \<open>2N\<close> wall, \<open>N\<close> top
  fan, \<open>2N\<close> bore wall, \<open>N\<close> bore cap and \<open>2N\<close> bottom annulus. With no segment the call
  raises \<open>IndexError\<close> at \<open>top_outer_ring[0]\<close>.
\<close>

theorem plain_knob_triangle_count:
  assumes "plain_round_knob p"
  shows "triangle_count p = (if segments p = 0 then Inl IndexError else Inr (8 * segments p))"
  using assms plain_triangle_count[of p] no_segments_fails[of p]
  by (simp add: triangle_count_def)

theorem plain_knob_triangle_count_witness:
  "plain_round_knob (plain_example 64) \<and> triangle_count (plain_example 64) = Inr 512"
proof -
  have "segments (plain_example 64) = 64" by (simp add: plain_example_def)
  with plain_knob_triangle_count[OF plain_example_plain, of 64] plain_example_plain[of 64]
  show ?thesis by simp
qed

text \<open>
  Claim C8. The radial scale factor used for the bottom-fillet and top-fillet rings is 1
  when the planar magnitude is at most 0.001 and \<open>(mag - inset) / mag\<close> otherwise, so it
  never divides by zero; insetting a profile, the bottom-fillet rings, the top-fillet
  rings and the whole ring stack are built without an exception for every parameter
  combination.
\<close>

theorem radial_scale_guarded:
  "(mag \<le> 0.001 \<longrightarrow> radial_scale mag inset = Inr 1)
   \<and> (mag > 0.001 \<longrightarrow> radial_scale mag inset = Inr ((mag - inset) / mag))
   \<and> radial_scale mag inset \<noteq> Inl ZeroDivisionError
   \<and> (\<exists>ring. inset_ring prof inset z = Inr ring)
   \<and> (\<exists>rs. bottom_rings p = Inr rs)
   \<and> (\<exists>rs. fillet_rings p = Inr rs)
   \<and> (\<exists>rings. outer_rings p = Inr rings)"
proof (intro conjI)
  show "mag \<le> 0.001 \<longrightarrow> radial_scale mag inset = Inr 1"
    by (simp add: radial_scale_def)
  show "mag > 0.001 \<longrightarrow> radial_scale mag inset = Inr ((mag - inset) / mag)"
    by (simp add: radial_scale_def py_div_def)
  show "radial_scale mag inset \<noteq> Inl ZeroDivisionError"
    using radial_scale_total[of mag inset] by auto
  show "\<exists>ring. inset_ring prof inset z = Inr ring" using inset_ring_ok by blast
  show "\<exists>rs. bottom_rings p = Inr rs" using bottom_rings_ok by blast
  show "\<exists>rs. fillet_rings p = Inr rs" using fillet_rings_ok by blast
  show "\<exists>rings. outer_rings p = Inr rings" using outer_rings_ok by blast
qed

theorem radial_scale_guarded_witness:
  "radial_scale 0 2 = Inr 1 \<and> radial_scale 5 2 = Inr (3 / 5)
   \<and> (\<exists>rings. outer_rings default_params = Inr rings)"
  using radial_scale_guarded[of 0 2 "[]" 0 default_params]
    radial_scale_guarded[of 5 2 "[]" 0 default_params]
  by simp

text \<open>
  Claim C9. For every parameter combination the ring stack of the outer shell is built,
  every ring in it has exactly \<open>segments\<close> points that share one z-coordinate, and so
  every adjacent pair of rings handed to the stitcher has equal point count.
\<close>

theorem outer_rings_uniform:
  "\<exists>rings. outer_rings p = Inr rings
     \<and> (\<forall>ring\<in>set rings. ring_ok (segments p) ring)
     \<and> (\<forall>r. r + 1 < length rings \<longrightarrow> length (rings ! r) = length (rings ! (r + 1)))"
proof -
  obtain rings where r: "outer_rings p = Inr rings"
    "\<forall>ring\<in>set rings. ring_ok (segments p) ring" using outer_rings_ok by blast
  have "length (rings ! r) = length (rings ! (r + 1))" if "r + 1 < length rings" for r
  proof -
    have "rings ! r \<in> set rings" "rings ! (r + 1) \<in> set rings" using that by simp_all
    then show ?thesis using r(2) by (simp add: ring_ok_def)
  qed
  with r show ?thesis by blast
qed

theorem outer_rings_uniform_witness:
  "\<exists>rings. outer_rings default_params = Inr rings \<and> list_all (ring_ok 64) rings"
proof -
  have "segments default_params = 64" by (simp add: default_params_def)
  with outer_rings_uniform[of default_params] show ?thesis
    by (auto simp: list_all_iff)
qed

text \<open>
  Claim C10. Whenever the builder reaches the assembly loop, every face refers only to
  vertex indices below the length of the vertex list, so the lookup
  \<open>np_verts[face[j]]\<close> never goes out of bounds and the loop yields one triangle per
  face. The lemmas above show the same for the state after every builder step.
\<close>

theorem face_indices_in_bounds:
  assumes "knob_faces p = Inr st"
  shows "faces_ok st \<and> (\<exists>ts. assemble st = Inr ts \<and> length ts = length (snd st))"
  using knob_faces_ok[OF assms] assemble_ok by blast

theorem face_indices_in_bounds_witness:
  "\<exists>st. knob_faces (plain_example 4) = Inr st \<and> faces_ok st
     \<and> (\<exists>ts. assemble st = Inr ts \<and> length ts = length (snd st))"
proof -
  have "0 < segments (plain_example 4)" by (simp add: plain_example_def)
  from plain_knob_faces[OF plain_example_plain this]
  obtain st where st: "knob_faces (plain_example 4) = Inr st" by blast
  from face_indices_in_bounds[OF this] st show ?thesis by blast
qed

subsubsection \<open>Finger dish and nut trap\<close>

lemma planar_radius_polar: "planar_radius (r * cos a, r * sin a, z) = \<bar>r\<bar>"
proof -
  have "(r * cos a)\<^sup>2 + (r * sin a)\<^sup>2 = r\<^sup>2 * ((cos a)\<^sup>2 + (sin a)\<^sup>2)"
    by (simp only: power_mult_distrib distrib_left)
  also have "\<dots> = r\<^sup>2" by simp
  finally show ?thesis by (simp add: planar_radius_def)
qed

lemma upt_1_6: "[1..<6] = [1, 2, 3, 4, 5::nat]"
  by (simp add: upt_rec)

lemma dish_loop_last_near_axis:
  assumes "ss \<noteq> []" "last ss = 5"
  shows "\<forall>q\<in>set (last (dish_loop p z 0 ss)). planar_radius q \<le> 0.001"
  using assms
proof (induction ss)
  case Nil
  then show ?case by simp
next
  case (Cons s ss)
  let ?r0 = "recess_diameter p / 2 * (1 - real s / 5)"
  let ?r = "if ?r0 < 0 then 0 else ?r0"
  let ?zc = "z - recess_depth p * (1 - (1 - real s / 5)\<^sup>2)"
  let ?poly = "map (\<lambda>i. let angle = sample_angle i (segments p)
                          in (?r * cos angle, ?r * sin angle, ?zc)) [0..<segments p]"
  have step: "dish_loop p z 0 (s # ss)
      = (if ?r \<le> 0 + 0.001 then [?poly] else ?poly # dish_loop p z 0 ss)"
    by (simp add: Let_def)
  show ?case
  proof (cases "?r \<le> 0.001")
    case True
    have "0 \<le> ?r" by simp
    with True have "\<bar>?r\<bar> \<le> 0.001" by linarith
    then have "\<forall>q\<in>set ?poly. planar_radius q \<le> 0.001"
      by (auto simp: Let_def planar_radius_polar)
    with True step show ?thesis by simp
  next
    case False
    have ne: "ss \<noteq> []"
    proof
      assume "ss = []"
      with Cons.prems have "s = 5" by simp
      with False show False by simp
    qed
    then have l: "last ss = 5" using Cons.prems by simp
    have "dish_loop p z 0 ss \<noteq> []" using ne by (cases ss) (simp_all add: Let_def)
    with False step Cons.IH[OF ne l] show ?thesis by simp
  qed
qed

lemma dish_rings_blind:
  assumes "\<not> through_hole p"
  shows "dish_rings p z
     = ring_at z (create_circle_profile (recess_diameter p) (segments p))
         # dish_loop p z 0 [1, 2, 3, 4, 5]"
  using assms unfolding dish_rings_def dish_hole_r_def upt_1_6 by simp

lemma dish_rings_last_near_axis:
  assumes "\<not> through_hole p"
  shows "\<forall>q\<in>set (last (dish_rings p z)). planar_radius q \<le> 0.001"
proof -
  have ne: "dish_loop p z 0 [1, 2, 3, 4, 5] \<noteq> []" by (simp add: Let_def)
  have "\<forall>q\<in>set (last (dish_loop p z 0 [1, 2, 3, 4, 5])). planar_radius q \<le> 0.001"
    by (rule dish_loop_last_near_axis) simp_all
  with ne show ?thesis unfolding dish_rings_blind[OF assms] by simp
qed

lemma dish_rings_last_on_axis:
  assumes "\<not> through_hole p" "recess_diameter p > 0.01"
  shows "length (dish_rings p z) = 6"
    and "last (dish_rings p z) = map (\<lambda>i. (0, 0, z - recess_depth p)) [0..<segments p]"
  using assms(2) unfolding dish_rings_blind[OF assms(1)] by (simp_all add: Let_def)


lemma dish_rings_nonempty: "dish_rings p z \<noteq> []"
  by (simp add: dish_rings_def)

lemma recess_closure_blind:
  assumes "\<not> through_hole p"
  shows "recess_closure p top_ring z st
     = bind_err (quad_strip (segments p) False top_ring
                   (ring_at z (create_circle_profile (recess_diameter p) (segments p))) st)
         (\<lambda>st1.
       bind_err (stitch_rings (segments p) (dish_rings p z) st1) (\<lambda>st2.
       bind_err (last_err (dish_rings p z)) (\<lambda>final_ring.
       bind_err (nth_err final_ring 0) (\<lambda>q. Inr (st2, snd (snd q))))))"
proof -
  let ?final = "last (dish_rings p z)"
  have le: "last_err (dish_rings p z) = Inr ?final"
    by (simp add: last_err_def dish_rings_nonempty)
  have tail: "bind_err (nth_err ?final 0) (\<lambda>q.
        if \<not> is_open p \<and> planar_radius q > 0.1
        then bind_err (apex_fan (segments p) (0, 0, snd (snd q)) ?final st2) (\<lambda>st3.
               Inr (st3, snd (snd q)))
        else Inr (st2, snd (snd q)))
      = bind_err (nth_err ?final 0) (\<lambda>q. Inr (st2, snd (snd q)))" for st2
  proof (cases "0 < length ?final")
    case True
    then have "?final ! 0 \<in> set ?final" by simp
    then have "planar_radius (?final ! 0) \<le> 0.001"
      using dish_rings_last_near_axis[OF assms] by blast
    then have "\<not> planar_radius (?final ! 0) > 0.1" by simp
    with True show ?thesis by (simp add: nth_err_def)
  next
    case False
    then show ?thesis by (simp add: nth_err_def)
  qed
  show ?thesis unfolding recess_closure_def Let_def le bind_err.simps tail ..
qed

text \<open>
  Claim C2 states that with a blind round hole the dish rings end at the bore radius
  \<open>shaft_dia / 2\<close>. For the default call with \<open>recess_depth = 5\<close>, a round hole of
  diameter 6 and four segments, the last dish ring has all its points on the axis, at the
  dish floor \<open>z = 15 - 5\<close>, not at radius 3: the radius floor \<open>hole_r\<close> is
  \<open>shaft_dia / 2\<close> only for a through hole.
\<close>

theorem dish_rings_blind_counterexample:
  "\<not> through_hole dish_example \<and> shaft_dia dish_example / 2 = 3
   \<and> last (dish_rings dish_example 15) = [(0, 0, 10), (0, 0, 10), (0, 0, 10), (0, 0, 10)]"
proof -
  have 1: "\<not> through_hole dish_example" "recess_diameter dish_example > 0.01"
    by (simp_all add: dish_example_def default_params_def)
  have 2: "[0..<segments dish_example] = [0, 1, 2, 3]"
    by (simp add: dish_example_def default_params_def upt_rec)
  show ?thesis
    unfolding dish_rings_last_on_axis(2)[OF 1] 2
    by (simp add: dish_example_def default_params_def)
qed

text \<open>
  Claim C2, amended. With \<open>through_hole = false\<close> the radius floor of the dish is 0, so
  the dish rings shrink to the axis: every point of the last dish ring lies within 0.001
  of the axis, and for a dish diameter above 0.01 the last ring is \<open>segments\<close> copies of
  the axis point at depth \<open>recess_depth\<close> below the top. Its radius is then not above
  0.1, so the recess closure emits the rim strip and the dish strips only, and no apex
  fan at the dish bottom.
\<close>

theorem dish_rings_blind_collapse:
  assumes "\<not> through_hole p"
  shows "(\<forall>q\<in>set (last (dish_rings p z)). planar_radius q \<le> 0.001)
     \<and> (recess_diameter p > 0.01 \<longrightarrow>
          last (dish_rings p z) = map (\<lambda>i. (0, 0, z - recess_depth p)) [0..<segments p])
     \<and> recess_closure p top_ring z st
        = bind_err (quad_strip (segments p) False top_ring
                      (ring_at z (create_circle_profile (recess_diameter p) (segments p))) st)
            (\<lambda>st1.
          bind_err (stitch_rings (segments p) (dish_rings p z) st1) (\<lambda>st2.
          bind_err (last_err (dish_rings p z)) (\<lambda>final_ring.
          bind_err (nth_err final_ring 0) (\<lambda>q. Inr (st2, snd (snd q))))))"
  using dish_rings_last_near_axis[OF assms] dish_rings_last_on_axis(2)[OF assms]
    recess_closure_blind[OF assms]
  by blast

theorem dish_rings_blind_collapse_witness:
  "list_all (\<lambda>q. planar_radius q \<le> 0.001) (last (dish_rings dish_example 15))
   \<and> last (dish_rings dish_example 15)
       = map (\<lambda>i. (0, 0, 15 - recess_depth dish_example)) [0..<segments dish_example]"
proof -
  have 1: "\<not> through_hole dish_example" "recess_diameter dish_example > 0.01"
    by (simp_all add: dish_example_def default_params_def)
  from dish_rings_blind_collapse[OF 1(1), of 15] 1(2) show ?thesis
    by (simp add: list_all_iff)
qed

lemma bind_err_Inr_id: "bind_err m Inr = m"
  by (cases m) simp_all

lemma shaft_bore_nut_trap:
  assumes "shaft_type p = ''Nut Trap''"
  shows "shaft_bore p zl st
     = bind_err (bore_z_bot p) (\<lambda>z_bot.
         if bore_z_top p zl > z_bot
         then quad_strip (segments p) True (ring_at z_bot (shaft_profile p))
                (ring_at (bore_z_top p zl) (shaft_profile p)) st
         else Inr st)"
  by (simp add: shaft_bore_def Let_def assms bind_err_Inr_id cong: if_cong)

lemma shaft_bore_nut_trap_count:
  assumes "shaft_type p = ''Nut Trap''" "\<not> through_hole p" "bore_z_bot p = Inr z_bot"
    "hole_depth p > z_bot"
  shows "\<exists>st'. shaft_bore p zl st = Inr st'
     \<and> length (fst st') = length (fst st) + 4 * segments p
     \<and> length (snd st') = length (snd st) + 2 * segments p"
proof -
  have len: "length (ring_at z (shaft_profile p)) = segments p" for z
    by (simp add: length_ring_at length_shaft_profile)
  have "shaft_bore p zl st = quad_strip (segments p) True (ring_at z_bot (shaft_profile p))
                (ring_at (hole_depth p) (shaft_profile p)) st"
    using assms by (simp add: shaft_bore_nut_trap bore_z_top_def)
  with quad_strip_count[OF len[of z_bot] len[of "hole_depth p"], where flip = True and st = st]
  show ?thesis by simp
qed

lemma nut_example_facts:
  "shaft_type nut_example = ''Nut Trap''" "\<not> through_hole nut_example"
  "bore_z_bot nut_example = Inr (13 / 5)" "hole_depth nut_example = 15"
  "segments nut_example = 4" "nut_truthy (nut_info nut_example)"
  "nut_location nut_example = ''Bottom''"
  by (simp_all add: nut_example_def default_params_def bore_z_bot_def nut_item_def m3_nut_def
      nut_truthy_def)

text \<open>
  Claim C3 states that a blind Nut Trap bore gets an apex fan at its top. For the M3 nut
  with four segments, \<open>through_hole = false\<close> and the bore top at 15, above the pocket
  top 2.6, the bore builder adds 8 faces, the two triangles of each of the four wall
  quads; a fan would add four more.
\<close>

theorem nut_trap_blind_bore_counterexample:
  "shaft_type nut_example = ''Nut Trap'' \<and> nut_truthy (nut_info nut_example)
   \<and> \<not> through_hole nut_example \<and> bore_z_bot nut_example = Inr (13 / 5)
   \<and> bore_z_top nut_example 15 = 15 \<and> segments nut_example = 4
   \<and> face_count (shaft_bore nut_example 15 ([], [])) = Inr 8"
proof -
  have "hole_depth nut_example > 13 / 5" by (simp add: nut_example_facts)
  from shaft_bore_nut_trap_count[OF nut_example_facts(1-3) this, where zl = 15 and st = "([], [])"]
  obtain st' where "shaft_bore nut_example 15 ([], []) = Inr st'"
    "length (snd st') = length (snd (([], [])::mesh_state)) + 2 * segments nut_example"
    by blast
  then have "face_count (shaft_bore nut_example 15 ([], [])) = Inr 8"
    by (simp add: face_count_def nut_example_facts)
  then show ?thesis by (simp add: nut_example_facts bore_z_top_def)
qed

text \<open>
  Claim C3, amended. For every call with \<open>shaft_type = "Nut Trap"\<close>,
  \<open>through_hole = false\<close> and the bore top \<open>hole_depth\<close> above the bore bottom, the bore
  builder emits the bore wall only, \<open>4 * segments\<close> vertices and \<open>2 * segments\<close> faces: the
  fan that closes a blind bore is guarded by \<open>shaft_type != "Nut Trap"\<close> and is not
  emitted.
\<close>

theorem nut_trap_blind_bore_open:
  assumes "shaft_type p = ''Nut Trap''" and "\<not> through_hole p"
    and "bore_z_bot p = Inr z_bot" and "hole_depth p > z_bot"
  shows "shaft_bore p zl st
           = quad_strip (segments p) True (ring_at z_bot (shaft_profile p))
               (ring_at (hole_depth p) (shaft_profile p)) st
     \<and> (\<exists>st'. shaft_bore p zl st = Inr st'
           \<and> length (fst st') = length (fst st) + 4 * segments p
           \<and> length (snd st') = length (snd st) + 2 * segments p)"
  using assms shaft_bore_nut_trap_count[OF assms]
  by (simp add: shaft_bore_nut_trap bore_z_top_def)

theorem nut_trap_blind_bore_open_witness:
  "\<exists>st'. shaft_bore nut_example 15 ([], []) = Inr st'
       \<and> length (fst st') = 16 \<and> length (snd st') = 8"
proof -
  have "hole_depth nut_example > 13 / 5" by (simp add: nut_example_facts)
  from nut_trap_blind_bore_open[OF nut_example_facts(1-3) this, where zl = 15 and st = "([], [])"]
  obtain st' where "shaft_bore nut_example 15 ([], []) = Inr st'"
    "length (fst st') = length (fst (([], [])::mesh_state)) + 4 * segments nut_example"
    "length (snd st') = length (snd (([], [])::mesh_state)) + 2 * segments nut_example"
    by blast
  then have "shaft_bore nut_example 15 ([], []) = Inr st' \<and> length (fst st') = 16
      \<and> length (snd st') = 8"
    by (simp add: nut_example_facts)
  then show ?thesis by blast
qed

subsubsection \<open>Signed volume of a through hole wider than the body\<close>













subsubsection \<open>Signed volume through the builder\<close>

lemma assemble_tris_of:
  assumes "faces_ok st"
  shows "assemble st = Inr (tris_of st)"
proof -
  obtain vs fs where st: "st = (vs, fs)" by (cases st)
  have "map_err (\<lambda>face. case face of (a, b, c) \<Rightarrow>
          bind_err (nth_err vs a) (\<lambda>va.
          bind_err (nth_err vs b) (\<lambda>vb.
          bind_err (nth_err vs c) (\<lambda>vc. Inr (va, vb, vc))))) fs
        = Inr (map (\<lambda>face. case face of (a, b, c) \<Rightarrow> (vs ! a, vs ! b, vs ! c)) fs)"
    if "\<forall>face\<in>set fs. case face of (a, b, c) \<Rightarrow>
          a < length vs \<and> b < length vs \<and> c < length vs"
    using that by (induction fs) (auto simp: nth_err_Inr)
  then show ?thesis using assms by (simp add: assemble_def tris_of_def st faces_ok_def)
qed

lemma tris_of_append:
  assumes "faces_ok (vs, fs)"
  shows "tris_of (vs @ ws, fs @ gs)
     = tris_of (vs, fs)
       @ map (\<lambda>face. case face of (a, b, c) \<Rightarrow>
                ((vs @ ws) ! a, (vs @ ws) ! b, (vs @ ws) ! c)) gs"
  using assms by (auto simp: tris_of_def faces_ok_def nth_append)

lemma signed_volume_append:
  "signed_volume (ts @ us) = signed_volume ts + signed_volume us"
  by (simp add: signed_volume_def)

lemma add_quad_volume:
  assumes "faces_ok st"
  shows "state_volume (add_quad p1 p2 p3 p4 flip st)
     = state_volume st + quad_volume p1 p2 p3 p4 flip"
proof -
  obtain vs fs where st: "st = (vs, fs)" by (cases st)
  have ok: "faces_ok (vs, fs)" using assms st by simp
  show ?thesis
    unfolding st add_quad_def Let_def prod.case state_volume_def tris_of_append[OF ok]
      signed_volume_append
    by (simp add: signed_volume_def quad_volume_def nth_append)
qed

lemma fold_err_volume:
  assumes "\<And>x s. x \<in> set xs \<Longrightarrow> I s \<Longrightarrow> \<exists>s'. f x s = Inr s' \<and> I s' \<and> vol s' = vol s + g x"
    and "I s"
  shows "\<exists>s'. fold_err f xs s = Inr s' \<and> I s' \<and> vol s' = vol s + sum_list (map g xs)"
  using assms
proof (induction xs arbitrary: s)
  case Nil
  then show ?case by simp
next
  case (Cons x xs)
  from Cons.prems(1)[of x s] Cons.prems(2) obtain s1 where
    s1: "f x s = Inr s1" "I s1" "vol s1 = vol s + g x" by auto
  from Cons.IH[of s1] Cons.prems(1) s1(2) obtain s' where
    "fold_err f xs s1 = Inr s'" "I s'" "vol s' = vol s1 + sum_list (map g xs)" by auto
  with s1 show ?case by (simp add: algebra_simps)
qed

lemma quad_strip_volume:
  assumes "length a = N" "length b = N" "faces_ok st"
  shows "\<exists>st'. quad_strip N flip a b st = Inr st' \<and> faces_ok st'
     \<and> state_volume st' = state_volume st
         + (\<Sum>i\<leftarrow>[0..<N]. quad_volume (a ! i) (a ! ((i + 1) mod N))
                              (b ! ((i + 1) mod N)) (b ! i) flip)"
  unfolding quad_strip_def
  by (rule fold_err_volume[where I = faces_ok])
    (use assms in \<open>auto simp: Let_def nth_err_Inr add_quad_volume faces_ok_add_quad\<close>)

lemma quad_strip_rev_volume:
  assumes "length a = N" "length b = N" "faces_ok st"
  shows "\<exists>st'. quad_strip_rev N a b st = Inr st' \<and> faces_ok st'
     \<and> state_volume st' = state_volume st
         + (\<Sum>i\<leftarrow>[0..<N]. quad_volume (a ! ((i + 1) mod N)) (a ! i)
                              (b ! i) (b ! ((i + 1) mod N)) False)"
  unfolding quad_strip_rev_def
  by (rule fold_err_volume[where I = faces_ok])
    (use assms in \<open>auto simp: Let_def nth_err_Inr add_quad_volume faces_ok_add_quad\<close>)

lemma apex_fan_volume:
  assumes "length ring = N" "faces_ok st"
  shows "\<exists>st'. apex_fan N c ring st = Inr st' \<and> faces_ok st'
     \<and> state_volume st' = state_volume st
         + (\<Sum>i\<leftarrow>[0..<N]. tet_volume (c, ring ! i, ring ! ((i + 1) mod N)))"
proof -
  obtain vs fs where st: "st = (vs, fs)" by (cases st)
  let ?I = "\<lambda>s. faces_ok s \<and> length vs < length (fst s) \<and> fst s ! length vs = c"
  let ?f = "\<lambda>i s. case s of (vs', fs') \<Rightarrow>
            let next_i = (i + 1) mod N; idx_o1 = length vs'; idx_o2 = idx_o1 + 1 in
            bind_err (nth_err ring i) (\<lambda>a. bind_err (nth_err ring next_i) (\<lambda>b.
              Inr (vs' @ [a, b], fs' @ [(length vs, idx_o1, idx_o2)])))"
  have "\<exists>s'. fold_err ?f [0..<N] (vs @ [c], fs) = Inr s' \<and> ?I s'
       \<and> state_volume s' = state_volume (vs @ [c], fs)
           + (\<Sum>i\<leftarrow>[0..<N]. tet_volume (c, ring ! i, ring ! ((i + 1) mod N)))"
  proof (rule fold_err_volume[where I = ?I])
    show "?I (vs @ [c], fs)" using assms(2) by (auto simp: faces_ok_def st)
  next
    fix x s assume x: "x \<in> set [0..<N]" and I: "?I s"
    obtain vs' fs' where s: "s = (vs', fs')" by (cases s)
    have ok: "faces_ok (vs', fs')" using I s by simp
    have xs: "x < length ring" "(x + 1) mod N < length ring" using x assms(1) by auto
    let ?s' = "(vs' @ [ring ! x, ring ! ((x + 1) mod N)],
               fs' @ [(length vs, length vs', length vs' + 1)])"
    have 1: "?f x s = Inr ?s'" using xs by (simp add: s Let_def nth_err_Inr)
    have 2: "?I ?s'" using I s by (fastforce simp: faces_ok_def nth_append)
    have 3: "state_volume ?s' = state_volume s
               + tet_volume (c, ring ! x, ring ! ((x + 1) mod N))"
      unfolding s state_volume_def tris_of_append[OF ok] signed_volume_append
      using I s by (simp add: signed_volume_def nth_append)
    from 1 2 3 show "\<exists>s'. ?f x s = Inr s' \<and> ?I s'
        \<and> state_volume s' = state_volume s + tet_volume (c, ring ! x, ring ! ((x + 1) mod N))"
      by blast
  qed
  moreover have "state_volume (vs @ [c], fs) = state_volume (vs, fs)"
    using assms(2) tris_of_append[of vs fs "[c]" "[]"] by (simp add: st state_volume_def)
  ultimately show ?thesis by (auto simp: apex_fan_def st Let_def)
qed


lemma fan_tet_volume:
  "tet_volume ((0, 0, z), (x1, y1, z), (x2, y2, z)) = z * cross2 (x1, y1) (x2, y2) / 6"
  by (simp add: tet_volume_def cross2_def algebra_simps)


lemma sum_list_cong_upt:
  assumes "\<And>i. i < N \<Longrightarrow> f i = g i"
  shows "(\<Sum>i\<leftarrow>[0..<N]. f i) = (\<Sum>i\<leftarrow>[0..<N]. g i)"
  using assms by (intro arg_cong[where f = sum_list] map_cong) auto


subsubsection \<open>Area of the circle profile\<close>

lemma sin_step_angle:
  assumes "i < N"
  shows "sin (sample_angle ((i + 1) mod N) N - sample_angle i N) = sin (2 * pi / real N)"
proof (cases "i + 1 < N")
  case True
  have "sample_angle (i + 1) N - sample_angle i N = 2 * pi / real N"
    using assms by (simp add: sample_angle_def field_simps)
  with True show ?thesis by simp
next
  case False
  with assms have e: "i + 1 = N" by simp
  then have m: "(i + 1) mod N = 0" by simp
  have rn: "real N = real i + 1" using e by auto
  have "sample_angle 0 N - sample_angle i N + 2 * pi = 2 * pi / real N"
    unfolding sample_angle_def rn by (simp add: field_simps)
  then have "sin (2 * pi / real N) = sin (sample_angle 0 N - sample_angle i N + 2 * pi)"
    by simp
  also have "\<dots> = sin (sample_angle 0 N - sample_angle i N)" by (rule sin_periodic)
  finally show ?thesis unfolding m by simp
qed

lemma circle_cross2:
  assumes "i < N"
  shows "cross2 (create_circle_profile d N ! i) (create_circle_profile d N ! ((i + 1) mod N))
     = (d / 2)\<^sup>2 * sin (2 * pi / real N)"
proof -
  let ?a = "sample_angle i N" and ?b = "sample_angle ((i + 1) mod N) N"
  have j: "(i + 1) mod N < N" using assms by simp
  have 1: "cross2 (create_circle_profile d N ! i) (create_circle_profile d N ! ((i + 1) mod N))
      = (d / 2)\<^sup>2 * (sin ?b * cos ?a - cos ?b * sin ?a)"
    unfolding circle_nth[OF assms] circle_nth[OF j]
    by (simp add: cross2_def power2_eq_square algebra_simps)
  have 2: "sin ?b * cos ?a - cos ?b * sin ?a = sin (?b - ?a)" by (simp add: sin_diff)
  show ?thesis unfolding 1 2 sin_step_angle[OF assms] ..
qed

lemma circle_area2:
  "profile_area2 N (create_circle_profile d N) = real N * ((d / 2)\<^sup>2 * sin (2 * pi / real N))"
proof -
  have "profile_area2 N (create_circle_profile d N)
      = (\<Sum>i\<leftarrow>[0..<N]. (d / 2)\<^sup>2 * sin (2 * pi / real N))"
    unfolding profile_area2_def by (rule sum_list_cong_upt) (rule circle_cross2)
  then show ?thesis by (simp add: sum_list_triv)
qed

lemma sin_step_nonneg: "0 \<le> sin (2 * pi / real N)"
proof (cases "N < 2")
  case True
  then consider "N = 0" | "N = 1" by linarith
  then show ?thesis by cases simp_all
next
  case False
  then have "2 \<le> real N" by simp
  then have "2 * pi / real N \<le> 2 * pi / 2"
    by (intro divide_left_mono) (auto simp: pi_gt_zero less_imp_le)
  then have "2 * pi / real N \<le> pi" by simp
  moreover have "0 \<le> 2 * pi / real N" by simp
  ultimately show ?thesis by (rule sin_ge_zero[rotated])
qed


subsubsection \<open>Volume of polar ring stacks\<close>

lemma polar_ring_length: "length (polar_ring N \<rho> z) = N"
  by (simp add: polar_ring_def)

lemma polar_ring_nth:
  "i < N \<Longrightarrow> polar_ring N \<rho> z ! i
     = (\<rho> i * cos (sample_angle i N), \<rho> i * sin (sample_angle i N), z)"
  by (simp add: polar_ring_def)

lemma step_cross:
  assumes "i < N"
  shows "cos (sample_angle i N) * sin (sample_angle ((i + 1) mod N) N)
       - cos (sample_angle ((i + 1) mod N) N) * sin (sample_angle i N) = step_sin N"
proof -
  let ?a = "sample_angle i N" and ?b = "sample_angle ((i + 1) mod N) N"
  have "sin (?b - ?a) = sin ?b * cos ?a - cos ?b * sin ?a" by (rule sin_diff)
  then show ?thesis using sin_step_angle[OF assms] by (simp add: step_sin_def mult.commute)
qed

lemma polar_det_lower:
  "det3 (a * cs, a * sn, za) (a' * cs', a' * sn', za) (b' * cs', b' * sn', zb)
     = (cs * sn' - cs' * sn) * (zb * (a * a') - za * (a * b'))"
  by (simp add: algebra_simps)

lemma polar_det_upper:
  "det3 (a * cs, a * sn, za) (b' * cs', b' * sn', zb) (b * cs, b * sn, zb)
     = (cs * sn' - cs' * sn) * (zb * (a * b') - za * (b * b'))"
  by (simp add: algebra_simps)

lemma det3_swap: "det3 u w v = - det3 u v w"
  by (cases u; cases v; cases w) (simp add: algebra_simps)

lemma tet_swap: "tet_volume (u, w, v) = - tet_volume (u, v, w)"
proof -
  have "det3 u w v = - det3 u v w" by (rule det3_swap)
  then show ?thesis by (simp add: tet_volume_def)
qed

lemma polar_quad_volume:
  assumes "cs * sn' - cs' * sn = s"
  shows "quad_volume (a * cs, a * sn, za) (a' * cs', a' * sn', za)
            (b' * cs', b' * sn', zb) (b * cs, b * sn, zb) flip
     = (if flip then - 1 else 1)
         * (s / 6 * (zb * (a * a' + a * b') - za * (b * b' + a * b')))"
proof -
  let ?p1 = "(a * cs, a * sn, za)" and ?p2 = "(a' * cs', a' * sn', za)"
  let ?p3 = "(b' * cs', b' * sn', zb)" and ?p4 = "(b * cs, b * sn, zb)"
  have 1: "det3 ?p1 ?p2 ?p3 = s * (zb * (a * a') - za * (a * b'))"
    unfolding polar_det_lower assms ..
  have 2: "det3 ?p1 ?p3 ?p4 = s * (zb * (a * b') - za * (b * b'))"
    unfolding polar_det_upper assms ..
  have "det3 ?p1 ?p2 ?p3 + det3 ?p1 ?p3 ?p4
      = s * (zb * (a * a' + a * b') - za * (b * b' + a * b'))"
    unfolding 1 2 by (simp add: algebra_simps)
  then have n: "tet_volume (?p1, ?p2, ?p3) + tet_volume (?p1, ?p3, ?p4)
      = s / 6 * (zb * (a * a' + a * b') - za * (b * b' + a * b'))"
    by (simp add: tet_volume_def add_divide_distrib[symmetric])
  have f: "tet_volume (?p1, ?p3, ?p2) + tet_volume (?p1, ?p4, ?p3)
      = - (tet_volume (?p1, ?p2, ?p3) + tet_volume (?p1, ?p3, ?p4))"
    unfolding tet_swap[of ?p1 ?p3 ?p2] tet_swap[of ?p1 ?p4 ?p3] by simp
  show ?thesis unfolding quad_volume_def f n by simp
qed

lemma polar_strip_vol:
  "strip_vol N flip (polar_ring N \<alpha> za) (polar_ring N \<beta> zb)
     = (if flip then - 1 else 1)
         * (step_sin N / 6 * (zb * (pair_sum N \<alpha> \<alpha> + pair_sum N \<alpha> \<beta>)
                             - za * (pair_sum N \<beta> \<beta> + pair_sum N \<alpha> \<beta>)))"
proof -
  let ?g = "\<lambda>i. (if flip then - 1 else 1)
         * (step_sin N / 6 * (zb * (\<alpha> i * \<alpha> ((i + 1) mod N) + \<alpha> i * \<beta> ((i + 1) mod N))
              - za * (\<beta> i * \<beta> ((i + 1) mod N) + \<alpha> i * \<beta> ((i + 1) mod N))))"
  have "strip_vol N flip (polar_ring N \<alpha> za) (polar_ring N \<beta> zb) = (\<Sum>i\<leftarrow>[0..<N]. ?g i)"
    unfolding strip_vol_def
  proof (rule sum_list_cong_upt)
    fix i assume i: "i < N"
    then have j: "(i + 1) mod N < N" by simp
    show "quad_volume (polar_ring N \<alpha> za ! i) (polar_ring N \<alpha> za ! ((i + 1) mod N))
            (polar_ring N \<beta> zb ! ((i + 1) mod N)) (polar_ring N \<beta> zb ! i) flip = ?g i"
      unfolding polar_ring_nth[OF i] polar_ring_nth[OF j]
      by (rule polar_quad_volume) (rule step_cross[OF i])
  qed
  also have "\<dots> = (if flip then - 1 else 1)
         * (step_sin N / 6 * (zb * (pair_sum N \<alpha> \<alpha> + pair_sum N \<alpha> \<beta>)
                             - za * (pair_sum N \<beta> \<beta> + pair_sum N \<alpha> \<beta>)))"
    unfolding pair_sum_def
    by (simp add: sum_list_const_mult sum_list_addf sum_list_subtractf algebra_simps
        flip: sum_list_const_mult)
  finally show ?thesis .
qed


lemma polar_strip_frustum:
  "strip_vol N False (polar_ring N \<alpha> za) (polar_ring N \<beta> zb)
     = (zb - za) * frustum N \<alpha> \<beta> + (za * ring_q N \<alpha> - zb * ring_q N \<beta>) / 6"
  unfolding polar_strip_vol frustum_def ring_q_def by (simp add: field_simps)

lemma polar_fan_vol:
  "fan_vol N (0, 0, z) (polar_ring N \<alpha> z) = z * ring_q N \<alpha> / 6"
proof -
  have "fan_vol N (0, 0, z) (polar_ring N \<alpha> z)
      = (\<Sum>i\<leftarrow>[0..<N]. z * step_sin N / 6 * (\<alpha> i * \<alpha> ((i + 1) mod N)))"
    unfolding fan_vol_def
  proof (rule sum_list_cong_upt)
    fix i assume i: "i < N"
    then have j: "(i + 1) mod N < N" by simp
    have "tet_volume ((0, 0, z), polar_ring N \<alpha> z ! i, polar_ring N \<alpha> z ! ((i + 1) mod N))
        = z * (\<alpha> i * \<alpha> ((i + 1) mod N)
            * (cos (sample_angle i N) * sin (sample_angle ((i + 1) mod N) N)
               - cos (sample_angle ((i + 1) mod N) N) * sin (sample_angle i N))) / 6"
      unfolding polar_ring_nth[OF i] polar_ring_nth[OF j] fan_tet_volume cross2_def
      by (simp add: algebra_simps)
    then show "tet_volume ((0, 0, z), polar_ring N \<alpha> z ! i, polar_ring N \<alpha> z ! ((i + 1) mod N))
        = z * step_sin N / 6 * (\<alpha> i * \<alpha> ((i + 1) mod N))"
      unfolding step_cross[OF i] by simp
  qed
  also have "\<dots> = z * step_sin N / 6 * pair_sum N \<alpha> \<alpha>"
    unfolding pair_sum_def by (simp only: sum_list_const_mult)
  finally show ?thesis by (simp add: ring_q_def)
qed

lemma polar_stack_vol:
  assumes "ks \<noteq> []"
  shows "stack_vol N (polar_rings N ks)
     = frusta_sum N ks
       + (snd (hd ks) * ring_q N (fst (hd ks)) - snd (last ks) * ring_q N (fst (last ks))) / 6"
  using assms
proof (induction N ks rule: frusta_sum.induct)
  case (1 N a b ks)
  have "stack_vol N (polar_rings N (a # b # ks))
      = strip_vol N False (polar_ring N (fst a) (snd a)) (polar_ring N (fst b) (snd b))
        + stack_vol N (polar_rings N (b # ks))"
    by (simp add: polar_rings_def)
  then show ?case using 1 by (simp add: polar_strip_frustum field_simps)
qed (simp_all add: polar_rings_def)

lemma stack_vol_sum:
  "stack_vol N rings
     = (\<Sum>r\<leftarrow>[0..<length rings - 1]. strip_vol N False (rings ! r) (rings ! (r + 1)))"
proof (induction N rings rule: stack_vol.induct)
  case (1 N a b rs)
  have "[0..<length (a # b # rs) - 1] = 0 # map Suc [0..<length (b # rs) - 1]"
    by (simp add: upt_conv_Cons map_Suc_upt del: upt_Suc)
  then show ?case using 1 by (simp add: comp_def del: upt_Suc)
qed simp_all

lemma stitch_rings_volume:
  assumes "\<forall>ring\<in>set rings. length ring = N" "faces_ok st"
  shows "\<exists>st'. stitch_rings N rings st = Inr st' \<and> faces_ok st'
     \<and> state_volume st' = state_volume st + stack_vol N rings"
  unfolding stitch_rings_def stack_vol_sum
proof (rule fold_err_volume[where I = faces_ok])
  show "faces_ok st" by (rule assms(2))
next
  fix r s assume r: "r \<in> set [0..<length rings - 1]" and s: "faces_ok s"
  then have r1: "r < length rings" "r + 1 < length rings" by auto
  then have l: "length (rings ! r) = N" "length (rings ! (r + 1)) = N"
    using assms(1) nth_mem by blast+
  from quad_strip_volume[OF l s, of False] r1
  show "\<exists>s'. bind_err (nth_err rings r) (\<lambda>ring_curr.
           bind_err (nth_err rings (r + 1)) (\<lambda>ring_next.
             quad_strip N False ring_curr ring_next s)) = Inr s'
         \<and> faces_ok s'
         \<and> state_volume s' = state_volume s + strip_vol N False (rings ! r) (rings ! (r + 1))"
    by (simp add: nth_err_Inr strip_vol_def)
qed

subsubsection \<open>The outer shell in polar form\<close>

lemma map_err_map: "map_err f (map g xs) = map_err (\<lambda>x. f (g x)) xs"
  by (induction xs) simp_all

lemma map_err_Inr: "map_err (\<lambda>x. Inr (h x)) xs = Inr (map h xs)"
  by (induction xs) simp_all

lemma map_err_cong_set:
  assumes "\<And>x. x \<in> set xs \<Longrightarrow> f x = g x"
  shows "map_err f xs = map_err g xs"
  using assms by (induction xs) simp_all

lemma body_profile_polar:
  "body_profile p
     = map (\<lambda>i. (body_radius p i * cos (sample_angle i (segments p)),
                 body_radius p i * sin (sample_angle i (segments p)))) [0..<segments p]"
  by (simp add: body_profile_def body_radius_def create_lobed_profile_def
      create_circle_profile_def lobed_radius_def Let_def)

lemma circle_profile_polar:
  "create_circle_profile d N
     = map (\<lambda>i. (d / 2 * cos (sample_angle i N), d / 2 * sin (sample_angle i N))) [0..<N]"
  by (simp add: create_circle_profile_def Let_def)

lemma ring_at_polar:
  "ring_at z (map (\<lambda>i. (\<rho> i * cos (sample_angle i N), \<rho> i * sin (sample_angle i N))) [0..<N])
     = polar_ring N \<rho> z"
  by (simp add: ring_at_def polar_ring_def)

lemma polar_magnitude: "sqrt ((r * cos a)\<^sup>2 + (r * sin a)\<^sup>2) = \<bar>r\<bar>"
proof -
  have "(r * cos a)\<^sup>2 + (r * sin a)\<^sup>2 = r\<^sup>2 * ((cos a)\<^sup>2 + (sin a)\<^sup>2)"
    by (simp only: power_mult_distrib distrib_left)
  also have "\<dots> = r\<^sup>2" by simp
  finally show ?thesis by simp
qed

lemma radial_scale_value:
  "radial_scale \<bar>r\<bar> ins = Inr (if \<bar>r\<bar> > 0.001 then (\<bar>r\<bar> - ins) / \<bar>r\<bar> else 1)"
  by (auto simp: radial_scale_def py_div_def)

lemma inset_ring_polar:
  "inset_ring (map (\<lambda>i. (\<rho> i * cos (sample_angle i N), \<rho> i * sin (sample_angle i N))) [0..<N])
       ins z
     = Inr (polar_ring N (\<lambda>i. inset_radius (\<rho> i) ins) z)"
proof -
  have "inset_ring (map (\<lambda>i. (\<rho> i * cos (sample_angle i N), \<rho> i * sin (sample_angle i N)))
            [0..<N]) ins z
      = map_err (\<lambda>i. Inr (inset_radius (\<rho> i) ins * cos (sample_angle i N),
                        inset_radius (\<rho> i) ins * sin (sample_angle i N), z)) [0..<N]"
    unfolding inset_ring_def map_err_map
    by (rule map_err_cong_set)
      (simp add: Let_def polar_magnitude radial_scale_value inset_radius_def)
  then show ?thesis by (simp add: map_err_Inr polar_ring_def)
qed

lemma ring_at_circle:
  "ring_at z (create_circle_profile d N) = polar_ring N (\<lambda>i. d / 2) z"
  by (simp add: ring_at_def polar_ring_def create_circle_profile_def Let_def)

lemma boss_rings_polar: "boss_rings p = polar_rings (segments p) (boss_stack p)"
  by (simp add: boss_rings_def boss_stack_def polar_rings_def boss_profile_def
      ring_at_circle)

lemma bottom_rings_polar: "bottom_rings p = Inr (polar_rings (segments p) (bottom_stack p))"
proof (cases "has_bottom_fillet p")
  case True
  have "bottom_rings p
      = map_err (\<lambda>s. Inr (polar_ring (segments p)
                  (\<lambda>i. inset_radius (body_radius p i) (bottom_inset p s))
                  (z_base p + bottom_fillet_height p * (real s / 6)))) [0..<7]"
    unfolding bottom_rings_def if_P[OF True]
    by (rule map_err_cong_set)
      (simp add: Let_def body_profile_polar inset_ring_polar bottom_inset_def)
  then show ?thesis
    using True by (simp add: map_err_Inr bottom_stack_def polar_rings_def comp_def)
next
  case False
  then show ?thesis
    by (simp add: bottom_rings_def bottom_stack_def polar_rings_def body_profile_polar
        ring_at_polar)
qed

lemma fillet_rings_polar:
  "fillet_rings p
     = Inr (map (\<lambda>s. polar_ring (segments p)
                  (\<lambda>i. inset_radius (body_radius p i) (top_inset p s))
                  (z_fillet_start p + top_fillet_height p * (real s / 8))) [1..<9])"
proof -
  have "fillet_rings p
      = map_err (\<lambda>s. Inr (polar_ring (segments p)
                  (\<lambda>i. inset_radius (body_radius p i) (top_inset p s))
                  (z_fillet_start p + top_fillet_height p * (real s / 8)))) [1..<9]"
    unfolding fillet_rings_def
    by (rule map_err_cong_set)
      (simp add: Let_def body_profile_polar inset_ring_polar top_inset_def py_div_def)
  then show ?thesis by (simp only: map_err_Inr)
qed

lemma dome_rings_polar:
  "dome_rings p
     = Inr (map (\<lambda>s. polar_ring (segments p) (\<lambda>i. body_radius p i * dome_factor p s)
                  (z_fillet_start p + dome_height p * (real s / 12))) [1..<13])"
proof -
  have "dome_rings p
      = map_err (\<lambda>s. Inr (polar_ring (segments p) (\<lambda>i. body_radius p i * dome_factor p s)
                  (z_fillet_start p + dome_height p * (real s / 12)))) [1..<13]"
    unfolding dome_rings_def Let_def
    by (rule map_err_cong_set)
      (simp add: body_profile_polar dome_factor_def dome_height_def py_div_def
        polar_ring_def comp_def algebra_simps)
  then show ?thesis by (simp only: map_err_Inr)
qed

lemma top_rings_polar: "top_rings p = Inr (polar_rings (segments p) (top_stack p))"
  by (simp add: top_rings_def top_stack_def polar_rings_def dome_rings_polar
      fillet_rings_polar comp_def)

lemma outer_rings_polar: "outer_rings p = Inr (polar_rings (segments p) (shell_stack p))"
  by (simp add: outer_rings_def bottom_rings_polar top_rings_polar boss_rings_polar
      shell_stack_def polar_rings_def body_profile_polar ring_at_polar)

lemma dish_loop_polar:
  "dish_loop p z hr ss = polar_rings (segments p) (dish_loop_stack p z hr ss)"
  by (induction ss) (simp_all add: polar_rings_def polar_ring_def Let_def)

lemma dish_rings_polar: "dish_rings p z = polar_rings (segments p) (dish_stack p z)"
  by (simp add: dish_rings_def dish_stack_def dish_loop_polar ring_at_circle polar_rings_def)

lemma polar_rings_lengths: "\<forall>ring\<in>set (polar_rings N ks). length ring = N"
  by (auto simp: polar_rings_def polar_ring_length)

lemma polar_rings_last:
  "ks \<noteq> [] \<Longrightarrow> last (polar_rings N ks) = polar_ring N (fst (last ks)) (snd (last ks))"
  by (simp add: polar_rings_def last_map)

lemma polar_ring_first:
  assumes "0 < N"
  shows "nth_err (polar_ring N \<rho> z) 0 = Inr (\<rho> 0, 0, z)"
  using assms by (simp add: nth_err_def polar_ring_length polar_ring_nth sample_angle_def)

lemma quad_strip_vol:
  assumes "length a = N" "length b = N" "faces_ok st"
  shows "\<exists>st'. quad_strip N flip a b st = Inr st' \<and> faces_ok st'
     \<and> state_volume st' = state_volume st + strip_vol N flip a b"
  unfolding strip_vol_def by (rule quad_strip_volume[OF assms])

lemma quad_strip_rev_vol:
  assumes "length a = N" "length b = N" "faces_ok st"
  shows "\<exists>st'. quad_strip_rev N a b st = Inr st' \<and> faces_ok st'
     \<and> state_volume st' = state_volume st + strip_rev_vol N a b"
  unfolding strip_rev_vol_def by (rule quad_strip_rev_volume[OF assms])

lemma apex_fan_vol:
  assumes "length ring = N" "faces_ok st"
  shows "\<exists>st'. apex_fan N c ring st = Inr st' \<and> faces_ok st'
     \<and> state_volume st' = state_volume st + fan_vol N c ring"
  unfolding fan_vol_def by (rule apex_fan_volume[OF assms])

lemma polar_level_strip:
  "strip_vol N False (polar_ring N \<alpha> z) (polar_ring N \<beta> z)
     = z * ring_q N \<alpha> / 6 - z * ring_q N \<beta> / 6"
  unfolding polar_strip_frustum by (simp add: field_simps)

lemma dish_stack_nonempty: "dish_stack p z \<noteq> []"
  by (simp add: dish_stack_def)

lemma dish_stack_hd: "hd (dish_stack p z) = (\<lambda>i. recess_diameter p / 2, z)"
  by (simp add: dish_stack_def)

subsubsection \<open>Volume added by the top closure, the cavity and the base\<close>

lemma planar_radius_axis: "planar_radius (a, 0, z) = \<bar>a\<bar>"
  by (simp add: planar_radius_def)

lemma ring_q_zero: "(\<And>i. \<alpha> i = 0) \<Longrightarrow> ring_q N \<alpha> = 0"
  by (simp add: ring_q_def pair_sum_def)

lemma hex_sample:
  "bind_err (py_mod (t - 0) (2 * pi / 6)) (\<lambda>angle_in_sector.
     bind_err (py_div (w / 2) (cos (angle_in_sector - 2 * pi / 6 / 2))) (\<lambda>r.
       Inr (r * cos t, r * sin t)))
   = Inr (w / 2 / cos (t - 2 * pi / 6 * of_int \<lfloor>t / (2 * pi / 6)\<rfloor> - 2 * pi / 6 / 2) * cos t,
          w / 2 / cos (t - 2 * pi / 6 * of_int \<lfloor>t / (2 * pi / 6)\<rfloor> - 2 * pi / 6 / 2) * sin t)"
proof -
  let ?b = "2 * pi / 6"
  let ?m = "t - ?b * of_int \<lfloor>t / ?b\<rfloor>"
  have b: "0 < ?b" by simp
  have b3: "?b \<le> 2 * pi / 3" by simp
  have m: "0 \<le> ?m" "?m < ?b" using polygon_mod_range[OF b, of t] by auto
  have lo: "- (pi / 2) < ?m - ?b / 2" using m b3 by (rule sector_bounds(1))
  have hi: "?m - ?b / 2 < pi / 2" using m b3 by (rule sector_bounds(2))
  have c: "0 < cos (?m - ?b / 2)" using lo hi by (rule cos_gt_zero_pi)
  have 1: "py_mod (t - 0) ?b = Inr ?m" by (simp add: py_mod_def)
  have 2: "py_div (w / 2) (cos (?m - ?b / 2)) = Inr (w / 2 / cos (?m - ?b / 2))"
    using c by (simp add: py_div_def)
  show ?thesis unfolding 1 bind_err.simps 2 ..
qed

lemma hex_profile:
  "create_polygon_profile w 6 N
     = Inr (map (\<lambda>i. (hex_radius w N i * cos (sample_angle i N),
                      hex_radius w N i * sin (sample_angle i N))) [0..<N])"
proof -
  have pd: "py_div (2 * pi) 6 = Inr (2 * pi / 6)" by (simp add: py_div_def)
  show ?thesis
    unfolding create_polygon_profile_def Let_def pd bind_err.simps hex_sample
      map_err_Inr hex_radius_def ..
qed

lemma opening_ring:
  assumes "nut_top p \<Longrightarrow> \<exists>w. nut_width p = Inr w"
  shows "\<exists>prof. (if shaft_type p = ''Nut Trap'' \<and> nut_location p = ''Top''
                 then bind_err (nut_width p) (\<lambda>w. create_polygon_profile w 6 (segments p))
                 else Inr (create_circle_profile (shaft_dia p) (segments p))) = Inr prof
           \<and> ring_at z prof = polar_ring (segments p) (opening_radius p) z"
proof (cases "nut_top p")
  case True
  with assms obtain w where w: "nut_width p = Inr w" by blast
  have "opening_radius p = hex_radius w (segments p)"
    by (rule ext) (simp add: opening_radius_def True w)
  then show ?thesis using True w
    by (simp add: nut_top_def hex_profile ring_at_polar)
next
  case False
  have "opening_radius p = (\<lambda>i. shaft_dia p / 2)"
    by (rule ext) (simp add: opening_radius_def False)
  then show ?thesis using False
    by (auto simp: nut_top_def ring_at_circle)
qed

lemma dome_closure_polar:
  assumes "0 < segments p" "\<rho> 0 = 0"
  shows "dome_closure p (polar_ring (segments p) \<rho> z) z st = Inr (st, initial_shaft_top_limit p)"
  using assms by (simp add: dome_closure_def polar_ring_first planar_radius_axis)

lemma plain_closure_polar:
  assumes lid: "nut_top p \<Longrightarrow> \<exists>w. nut_width p = Inr w"
    and N: "0 < segments p" and ok: "faces_ok st"
    and nr: "\<not> recess_depth p > 0" and nd: "\<not> is_dome p"
  shows "\<exists>st'. plain_closure p (polar_ring (segments p) \<rho> z) z st = Inr (st', top_limit p z)
     \<and> faces_ok st'
     \<and> state_volume st' = state_volume st + z * ring_q (segments p) \<rho> / 6 + top_rest p z"
proof (cases "is_open p")
  case True
  let ?hole = "polar_ring (segments p) (opening_radius p) z"
  from opening_ring[OF lid, of z] obtain prof where
    prof: "(if shaft_type p = ''Nut Trap'' \<and> nut_location p = ''Top''
            then bind_err (nut_width p) (\<lambda>w. create_polygon_profile w 6 (segments p))
            else Inr (create_circle_profile (shaft_dia p) (segments p))) = Inr prof"
    and hole: "ring_at z prof = ?hole" by blast
  from quad_strip_vol[OF polar_ring_length polar_ring_length ok, of "segments p" False \<rho> z
      "opening_radius p" z]
  obtain st' where st': "quad_strip (segments p) False (polar_ring (segments p) \<rho> z) ?hole st
      = Inr st'" "faces_ok st'"
    "state_volume st' = state_volume st
       + strip_vol (segments p) False (polar_ring (segments p) \<rho> z) ?hole" by blast
  have "plain_closure p (polar_ring (segments p) \<rho> z) z st = Inr (st', z)"
    unfolding plain_closure_def prof bind_err.simps Let_def hole
    using True st'(1) by simp
  moreover have "top_limit p z = z"
    "top_rest p z = - (z * ring_q (segments p) (opening_radius p) / 6)"
    using True nr nd by (simp_all add: top_limit_def top_rest_def)
  ultimately show ?thesis using st'(2,3) by (simp add: polar_level_strip)
next
  case False
  from apex_fan_vol[OF polar_ring_length ok, of "segments p" "(0, 0, z)" \<rho> z]
  obtain st' where st': "apex_fan (segments p) (0, 0, z) (polar_ring (segments p) \<rho> z) st
      = Inr st'" "faces_ok st'"
    "state_volume st' = state_volume st
       + fan_vol (segments p) (0, 0, z) (polar_ring (segments p) \<rho> z)" by blast
  have "plain_closure p (polar_ring (segments p) \<rho> z) z st
      = Inr (st', initial_shaft_top_limit p)"
    using False st'(1) by (simp add: plain_closure_def)
  moreover have "top_limit p z = initial_shaft_top_limit p" "top_rest p z = 0"
    using False nr nd by (simp_all add: top_limit_def top_rest_def)
  ultimately show ?thesis using st'(2,3) by (simp add: polar_fan_vol)
qed

lemma recess_closure_polar:
  assumes N: "0 < segments p" and ok: "faces_ok st"
    and r: "recess_depth p > 0" and nd: "\<not> is_dome p"
  shows "\<exists>st'. recess_closure p (polar_ring (segments p) \<rho> z) z st = Inr (st', top_limit p z)
     \<and> faces_ok st'
     \<and> state_volume st' = state_volume st + z * ring_q (segments p) \<rho> / 6 + top_rest p z"
proof -
  let ?N = "segments p"
  let ?start = "polar_ring ?N (\<lambda>i. recess_diameter p / 2) z"
  let ?rf = "fst (dish_final p z)" and ?zf = "snd (dish_final p z)"
  let ?final = "polar_ring ?N ?rf ?zf"
  from quad_strip_vol[OF polar_ring_length polar_ring_length ok, of ?N False \<rho> z
      "\<lambda>i. recess_diameter p / 2" z]
  obtain st1 where st1: "quad_strip ?N False (polar_ring ?N \<rho> z) ?start st = Inr st1"
    "faces_ok st1"
    "state_volume st1 = state_volume st + (z * ring_q ?N \<rho> / 6
        - z * ring_q ?N (\<lambda>i. recess_diameter p / 2) / 6)"
    unfolding polar_level_strip by blast
  from stitch_rings_volume[OF polar_rings_lengths st1(2), of ?N "dish_stack p z"]
  obtain st2 where st2: "stitch_rings ?N (dish_rings p z) st1 = Inr st2" "faces_ok st2"
    "state_volume st2 = state_volume st1 + (frusta_sum ?N (dish_stack p z)
        + (z * ring_q ?N (\<lambda>i. recess_diameter p / 2) - ?zf * ring_q ?N ?rf) / 6)"
    unfolding dish_rings_polar polar_stack_vol[OF dish_stack_nonempty] dish_stack_hd
      dish_final_def by auto
  have "last (dish_rings p z) = ?final"
    by (simp add: dish_rings_polar polar_rings_last[OF dish_stack_nonempty] dish_final_def)
  moreover have "last_err (dish_rings p z) = Inr (last (dish_rings p z))"
    by (simp add: last_err_def dish_rings_nonempty)
  ultimately have le: "last_err (dish_rings p z) = Inr ?final" by simp
  have n0: "nth_err ?final 0 = Inr (?rf 0, 0, ?zf)" by (rule polar_ring_first[OF N])
  have tl: "top_limit p z = ?zf" using r nd by (simp add: top_limit_def)
  show ?thesis
  proof (cases "\<not> is_open p \<and> \<bar>?rf 0\<bar> > 0.1")
    case True
    from apex_fan_vol[OF polar_ring_length st2(2), of ?N "(0, 0, ?zf)" ?rf ?zf]
    obtain st3 where st3: "apex_fan ?N (0, 0, ?zf) ?final st2 = Inr st3" "faces_ok st3"
      "state_volume st3 = state_volume st2 + ?zf * ring_q ?N ?rf / 6"
      unfolding polar_fan_vol by blast
    have "recess_closure p (polar_ring ?N \<rho> z) z st = Inr (st3, ?zf)"
      using True st1(1) st2(1) st3(1)
      by (simp add: recess_closure_def ring_at_circle le n0 planar_radius_axis)
    moreover have "top_rest p z = frusta_sum ?N (dish_stack p z)"
      using True r nd by (simp add: top_rest_def)
    ultimately show ?thesis using st3(2,3) st2(3) st1(3) tl by (simp add: field_simps)
  next
    case False
    have "recess_closure p (polar_ring ?N \<rho> z) z st = Inr (st2, ?zf)"
      using False st1(1) st2(1)
      by (auto simp: recess_closure_def ring_at_circle le n0 planar_radius_axis)
    moreover have "top_rest p z
        = frusta_sum ?N (dish_stack p z) - ?zf * ring_q ?N ?rf / 6"
      using False r nd by (auto simp: top_rest_def)
    ultimately show ?thesis using st2(2,3) st1(3) tl by (simp add: field_simps)
  qed
qed

lemma not_isl_iff: "\<not> isl x \<longleftrightarrow> (\<exists>y. x = Inr y)"
  by (cases x) simp_all

lemma top_closure_unfold:
  assumes N: "0 < segments p" and ks: "ks \<noteq> []"
  shows "top_closure p (polar_rings (segments p) ks) st
      = (if is_dome p
         then dome_closure p (polar_ring (segments p) (fst (last ks)) (snd (last ks)))
                (snd (last ks)) st
         else if recess_depth p > 0
         then recess_closure p (polar_ring (segments p) (fst (last ks)) (snd (last ks)))
                (snd (last ks)) st
         else plain_closure p (polar_ring (segments p) (fst (last ks)) (snd (last ks)))
                (snd (last ks)) st)"
proof -
  let ?N = "segments p" and ?\<rho> = "fst (last ks)" and ?z = "snd (last ks)"
  have le: "last_err (polar_rings ?N ks) = Inr (polar_ring ?N ?\<rho> ?z)"
    using ks by (simp add: last_err_def polar_rings_last) (simp add: polar_rings_def)
  have n0: "nth_err (polar_ring ?N ?\<rho> ?z) 0 = Inr (?\<rho> 0, 0, ?z)"
    by (rule polar_ring_first[OF N])
  show ?thesis by (simp add: top_closure_def le n0 Let_def)
qed

lemma top_closure_polar:
  assumes lid: "lid_ready p" and N: "0 < segments p" and ok: "faces_ok st" and ks: "ks \<noteq> []"
    and dome: "is_dome p \<Longrightarrow> (\<forall>i. fst (last ks) i = 0)"
  shows "\<exists>st'. top_closure p (polar_rings (segments p) ks) st
               = Inr (st', top_limit p (snd (last ks)))
     \<and> faces_ok st'
     \<and> state_volume st' = state_volume st
         + snd (last ks) * ring_q (segments p) (fst (last ks)) / 6
         + top_rest p (snd (last ks))"
proof -
  let ?N = "segments p" and ?\<rho> = "fst (last ks)" and ?z = "snd (last ks)"
  note tc = top_closure_unfold[OF N ks, of st]
  consider (dome) "is_dome p" | (recess) "\<not> is_dome p" "recess_depth p > 0"
    | (plain) "\<not> is_dome p" "\<not> recess_depth p > 0" by blast
  then show ?thesis
  proof cases
    case dome
    then have z0: "\<And>i. ?\<rho> i = 0" using assms(5) by blast
    have "top_closure p (polar_rings ?N ks) st = Inr (st, initial_shaft_top_limit p)"
      unfolding tc using dome dome_closure_polar[OF N z0] by simp
    moreover have "top_limit p ?z = initial_shaft_top_limit p" "top_rest p ?z = 0"
      using dome by (simp_all add: top_limit_def top_rest_def)
    ultimately show ?thesis using ok ring_q_zero[of ?\<rho> ?N, OF z0] by simp
  next
    case recess
    with recess_closure_polar[OF N ok recess(2) recess(1), of ?\<rho> ?z] tc
    show ?thesis by simp
  next
    case plain
    have l: "nut_top p \<Longrightarrow> \<exists>w. nut_width p = Inr w"
      using lid plain by (simp add: lid_ready_def not_isl_iff)
    from plain_closure_polar[OF l N ok plain(2) plain(1), of ?\<rho> ?z] tc plain
    show ?thesis by simp
  qed
qed


lemma map_err_length: "map_err f xs = Inr ys \<Longrightarrow> length ys = length xs"
  by (induction xs arbitrary: ys) (auto simp: bind_err_Inr_iff)

lemma polygon_profile_length:
  "create_polygon_profile w sides N = Inr ps \<Longrightarrow> length ps = N"
  by (auto simp: create_polygon_profile_def Let_def bind_err_Inr_iff dest: map_err_length)

lemma state_volume_empty: "state_volume ([], []) = 0"
  by (simp add: state_volume_def tris_of_def signed_volume_def)

lemma pocket_step:
  assumes "nut_pocket p s0 = Inr s0'" "faces_ok st"
  shows "\<exists>st'. nut_pocket p st = Inr st' \<and> faces_ok st'
           \<and> state_volume st' = state_volume st + pocket_vol p"
proof (cases "shaft_type p = ''Nut Trap'' \<and> nut_truthy (nut_info p)")
  case True
  let ?N = "segments p"
  from True assms(1) obtain w nh trap where
    w: "nut_width p = Inr w" and nh: "nut_item (nut_info p) ''height'' = Inr nh"
    and tp: "create_polygon_profile w 6 ?N = Inr trap"
    by (auto simp: nut_pocket_def Let_def bind_err_Inr_iff)
  show ?thesis
  proof (cases "nut_location p = ''Bottom''")
    case b: True
    let ?a = "ring_at 0 trap" and ?b = "ring_at (nh + 0.2) trap"
    let ?c = "ring_at (nh + 0.2) (create_circle_profile (shaft_dia p) ?N)"
    let ?V = "strip_vol ?N True ?a ?b + strip_rev_vol ?N ?b ?c"
    have len: "length ?a = ?N" "length ?b = ?N" "length ?c = ?N"
      using polygon_profile_length[OF tp] by (simp_all add: length_ring_at length_circle)
    have gen: "\<exists>s'. nut_pocket p s = Inr s' \<and> faces_ok s'
        \<and> state_volume s' = state_volume s + ?V" if s: "faces_ok s" for s
    proof -
      from quad_strip_vol[OF len(1,2) s, of True] obtain s1 where
        s1: "quad_strip ?N True ?a ?b s = Inr s1" "faces_ok s1"
        "state_volume s1 = state_volume s + strip_vol ?N True ?a ?b" by blast
      from quad_strip_rev_vol[OF len(2,3) s1(2)] obtain s2 where
        s2: "quad_strip_rev ?N ?b ?c s1 = Inr s2" "faces_ok s2"
        "state_volume s2 = state_volume s1 + strip_rev_vol ?N ?b ?c" by blast
      have "nut_pocket p s = Inr s2"
        using True b w nh tp s1(1) s2(1) by (simp add: nut_pocket_def Let_def)
      with s2(2,3) s1(3) show ?thesis by simp
    qed
    from gen[OF faces_ok_empty] have "pocket_vol p = ?V"
      by (auto simp: pocket_vol_def state_volume_empty)
    with gen[OF assms(2)] show ?thesis by auto
  next
    case b: False
    have id: "nut_pocket p s = Inr s" for s
      using True b w nh tp by (simp add: nut_pocket_def Let_def)
    have "pocket_vol p = 0" by (simp add: pocket_vol_def id state_volume_empty)
    with id[of st] assms(2) show ?thesis by simp
  qed
next
  case False
  have id: "nut_pocket p s = Inr s" for s
    using False by (auto simp: nut_pocket_def)
  have "pocket_vol p = 0" by (simp add: pocket_vol_def id state_volume_empty)
  with id[of st] assms(2) show ?thesis by simp
qed

lemma bore_step:
  assumes zb: "bore_z_bot p = Inr zb" and ok: "faces_ok st"
  shows "\<exists>st'. shaft_bore p zl st = Inr st' \<and> faces_ok st'
           \<and> state_volume st' = state_volume st + bore_vol p zl"
    and "bore_vol p zl
       = (if bore_z_top p zl > zb
          then strip_vol (segments p) True (ring_at zb (shaft_profile p))
                 (ring_at (bore_z_top p zl) (shaft_profile p))
               + (if \<not> through_hole p \<and> shaft_type p \<noteq> ''Nut Trap''
                  then fan_vol (segments p) (0, 0, bore_z_top p zl)
                         (ring_at (bore_z_top p zl) (shaft_profile p))
                  else 0)
          else 0)"
proof -
  let ?N = "segments p" and ?zt = "bore_z_top p zl" and ?sp = "shaft_profile p"
  let ?a = "ring_at zb ?sp" and ?b = "ring_at ?zt ?sp"
  let ?cap = "\<not> through_hole p \<and> shaft_type p \<noteq> ''Nut Trap''"
  let ?V = "if ?zt > zb
            then strip_vol ?N True ?a ?b + (if ?cap then fan_vol ?N (0, 0, ?zt) ?b else 0)
            else 0"
  have len: "length ?a = ?N" "length ?b = ?N"
    by (simp_all add: length_ring_at length_shaft_profile)
  have gen: "\<exists>s'. shaft_bore p zl s = Inr s' \<and> faces_ok s'
      \<and> state_volume s' = state_volume s + ?V" if s: "faces_ok s" for s
  proof (cases "?zt > zb")
    case True
    from quad_strip_vol[OF len s, of True] obtain s1 where
      s1: "quad_strip ?N True ?a ?b s = Inr s1" "faces_ok s1"
      "state_volume s1 = state_volume s + strip_vol ?N True ?a ?b" by blast
    show ?thesis
    proof (cases ?cap)
      case c: True
      from apex_fan_vol[OF len(2) s1(2), of "(0, 0, ?zt)"] obtain s2 where
        s2: "apex_fan ?N (0, 0, ?zt) ?b s1 = Inr s2" "faces_ok s2"
        "state_volume s2 = state_volume s1 + fan_vol ?N (0, 0, ?zt) ?b" by blast
      have "shaft_bore p zl s = Inr s2"
        using True c zb s1(1) s2(1) by (simp add: shaft_bore_def Let_def)
      with s2(2,3) s1(3) True c show ?thesis by simp
    next
      case c: False
      have "shaft_bore p zl s = Inr s1"
        using True c zb s1(1) by (auto simp: shaft_bore_def Let_def)
      with s1(2,3) True c show ?thesis by auto
    qed
  next
    case False
    then have "shaft_bore p zl s = Inr s" using zb by (simp add: shaft_bore_def Let_def)
    with s False show ?thesis by simp
  qed
  from gen[OF faces_ok_empty] show v: "bore_vol p zl = ?V"
    by (auto simp: bore_vol_def state_volume_empty)
  from gen[OF ok] show "\<exists>st'. shaft_bore p zl st = Inr st' \<and> faces_ok st'
           \<and> state_volume st' = state_volume st + bore_vol p zl"
    unfolding v by auto
qed

lemma quad_volume_flat:
  assumes "snd (snd p1) = 0" "snd (snd p2) = 0" "snd (snd p3) = 0" "snd (snd p4) = 0"
  shows "quad_volume p1 p2 p3 p4 flip = 0"
  using assms
  by (cases p1; cases p2; cases p3; cases p4) (simp add: quad_volume_def tet_volume_def)

lemma strip_rev_flat:
  assumes "length a = N" "length b = N"
    and "\<forall>q\<in>set a. snd (snd q) = 0" "\<forall>q\<in>set b. snd (snd q) = 0"
  shows "strip_rev_vol N a b = 0"
proof -
  have "strip_rev_vol N a b = (\<Sum>i\<leftarrow>[0..<N]. 0)"
    unfolding strip_rev_vol_def
  proof (rule sum_list_cong_upt)
    fix i assume "i < N"
    then have "i < length a" "(i + 1) mod N < length a" "i < length b"
      "(i + 1) mod N < length b" using assms(1,2) by auto
    then have "a ! i \<in> set a" "a ! ((i + 1) mod N) \<in> set a" "b ! i \<in> set b"
      "b ! ((i + 1) mod N) \<in> set b" by (simp_all only: nth_mem)
    then show "quad_volume (a ! ((i + 1) mod N)) (a ! i) (b ! i) (b ! ((i + 1) mod N)) False = 0"
      using assms(3,4) by (intro quad_volume_flat) blast+
  qed
  then show ?thesis by simp
qed

lemma base_step:
  assumes ready: "shaft_type p = ''Nut Trap'' \<and> nut_location p = ''Bottom''
                    \<Longrightarrow> \<exists>w. nut_width p = Inr w"
    and ok: "faces_ok st" and ks: "ks \<noteq> []" and z0: "snd (hd ks) = 0"
  shows "\<exists>st'. base_cap p (polar_rings (segments p) ks) st = Inr st' \<and> faces_ok st'
           \<and> state_volume st' = state_volume st"
proof -
  let ?N = "segments p"
  let ?a = "polar_ring ?N (fst (hd ks)) 0"
  have h: "nth_err (polar_rings ?N ks) 0 = Inr ?a"
    using ks z0 by (cases ks) (simp_all add: nth_err_def polar_rings_def)
  have "\<exists>prof. (if shaft_type p = ''Nut Trap'' \<and> nut_location p = ''Bottom''
                then bind_err (nut_width p) (\<lambda>w.
                     bind_err (create_polygon_profile w 6 ?N) (\<lambda>prof.
                       Inr (ring_at 0 prof)))
                else Inr (ring_at 0 (shaft_profile p))) = Inr (ring_at 0 prof)
          \<and> length prof = ?N"
  proof (cases "shaft_type p = ''Nut Trap'' \<and> nut_location p = ''Bottom''")
    case True
    with ready obtain w where "nut_width p = Inr w" by blast
    then show ?thesis using True
      by (simp add: hex_profile)
        (rule exI[where x = "map (\<lambda>i. (hex_radius w ?N i * cos (sample_angle i ?N),
            hex_radius w ?N i * sin (sample_angle i ?N))) [0..<?N]"], simp)
  next
    case False
    then show ?thesis by (auto simp: length_shaft_profile)
  qed
  then obtain prof where
    inner: "(if shaft_type p = ''Nut Trap'' \<and> nut_location p = ''Bottom''
                then bind_err (nut_width p) (\<lambda>w.
                     bind_err (create_polygon_profile w 6 ?N) (\<lambda>prof.
                       Inr (ring_at 0 prof)))
                else Inr (ring_at 0 (shaft_profile p))) = Inr (ring_at 0 prof)"
    and l: "length prof = ?N" by blast
  have la: "length ?a = ?N" by (rule polar_ring_length)
  have lb: "length (ring_at 0 prof) = ?N" using l by (simp add: length_ring_at)
  have za: "\<forall>q\<in>set ?a. snd (snd q) = 0" by (auto simp: polar_ring_def)
  have zb: "\<forall>q\<in>set (ring_at 0 prof). snd (snd q) = 0" by (auto simp: ring_at_def)
  have bc: "base_cap p (polar_rings ?N ks) st = quad_strip_rev ?N ?a (ring_at 0 prof) st"
    unfolding base_cap_def h bind_err.simps inner ..
  from quad_strip_rev_vol[OF la lb ok]
  show ?thesis unfolding bc by (simp add: strip_rev_flat[OF la lb za zb])
qed

lemma shell_stack_nonempty: "shell_stack p \<noteq> []"
  by (simp add: shell_stack_def)

lemma shell_stack_hd: "snd (hd (shell_stack p)) = 0"
proof (cases "boss_height p > 0.1")
  case True
  then show ?thesis by (simp add: shell_stack_def boss_stack_def)
next
  case False
  then have b: "boss_stack p = []" "z_base p = 0" by (simp_all add: boss_stack_def z_base_def)
  have "hd (map f [0..<7]) = f 0" for f :: "nat \<Rightarrow> (nat \<Rightarrow> real) \<times> real"
    by (simp add: upt_conv_Cons)
  then show ?thesis by (simp add: shell_stack_def b bottom_stack_def)
qed

lemma dome_factor_top: "dome_factor p 12 = 0"
  by (simp add: dome_factor_def)

lemma shell_stack_dome_last:
  assumes "is_dome p"
  shows "fst (last (shell_stack p)) i = 0"
proof -
  have "last (map f [1..<13]) = f 12" for f :: "nat \<Rightarrow> (nat \<Rightarrow> real) \<times> real"
    by (simp add: last_map)
  then show ?thesis using assms
    by (simp add: shell_stack_def top_stack_def dome_factor_top)
qed

lemma knob_faces_volume:
  assumes N: "0 < segments p" and ready: "cavity_ready p"
  shows "\<exists>st. knob_faces p = Inr st \<and> faces_ok st \<and> state_volume st = knob_volume p"
proof -
  let ?N = "segments p" and ?ks = "shell_stack p"
  have lid: "lid_ready p" using ready by (simp add: cavity_ready_def)
  from ready obtain s0 zb where s0: "nut_pocket p ([], []) = Inr s0"
    and zb: "bore_z_bot p = Inr zb"
    by (auto simp: cavity_ready_def not_isl_iff)
  have br: "shaft_type p = ''Nut Trap'' \<and> nut_location p = ''Bottom''
              \<Longrightarrow> \<exists>w. nut_width p = Inr w"
    using ready by (simp add: cavity_ready_def not_isl_iff)
  from stitch_rings_volume[OF polar_rings_lengths faces_ok_empty, of ?N ?ks]
  obtain st1 where st1: "stitch_rings ?N (polar_rings ?N ?ks) ([], []) = Inr st1"
    "faces_ok st1"
    "state_volume st1 = frusta_sum ?N ?ks - lid_z p * ring_q ?N (fst (last ?ks)) / 6"
    unfolding polar_stack_vol[OF shell_stack_nonempty] shell_stack_hd state_volume_empty
      lid_z_def by auto
  from top_closure_polar[OF lid N st1(2) shell_stack_nonempty]
    shell_stack_dome_last[of p]
  obtain st2 where st2: "top_closure p (polar_rings ?N ?ks) st1
      = Inr (st2, top_limit p (lid_z p))" "faces_ok st2"
    "state_volume st2 = state_volume st1 + lid_z p * ring_q ?N (fst (last ?ks)) / 6
       + top_rest p (lid_z p)"
    unfolding lid_z_def by blast
  from pocket_step[OF s0 st2(2)] obtain st3 where st3: "nut_pocket p st2 = Inr st3"
    "faces_ok st3" "state_volume st3 = state_volume st2 + pocket_vol p" by blast
  from bore_step(1)[OF zb st3(2), of "top_limit p (lid_z p)"] obtain st4 where
    st4: "shaft_bore p (top_limit p (lid_z p)) st3 = Inr st4" "faces_ok st4"
    "state_volume st4 = state_volume st3 + bore_vol p (top_limit p (lid_z p))" by blast
  from base_step[OF br st4(2) shell_stack_nonempty shell_stack_hd] obtain st5 where
    st5: "base_cap p (polar_rings ?N ?ks) st4 = Inr st5" "faces_ok st5"
    "state_volume st5 = state_volume st4" by blast
  have "knob_faces p = Inr st5"
    by (simp add: knob_faces_def outer_rings_polar st1(1) st2(1) st3(1) st4(1) st5(1))
  moreover have "state_volume st5 = knob_volume p"
    unfolding st5(3) st4(3) st3(3) st2(3) st1(3) knob_volume_def by simp
  ultimately show ?thesis using st5(2) by blast
qed


lemma mesh_volume_formula:
  assumes "0 < segments p" "cavity_ready p"
  shows "mesh_volume p = Inr (knob_volume p)"
proof -
  from knob_faces_volume[OF assms] obtain st where
    st: "knob_faces p = Inr st" "faces_ok st" "state_volume st = knob_volume p" by blast
  show ?thesis
    by (simp add: mesh_volume_def generate_knob_mesh_def st(1) assemble_tris_of[OF st(2)]
        st(3)[symmetric] state_volume_def)
qed


subsubsection \<open>Ring stacks under a change of height\<close>

lemma frusta_sum_append:
  "xs \<noteq> [] \<Longrightarrow> frusta_sum N (xs @ ys) = frusta_sum N xs + frusta_sum N (last xs # ys)"
  by (induction N xs rule: frusta_sum.induct) simp_all


lemma frustum_same: "frustum N \<alpha> \<alpha> = ring_q N \<alpha> / 2"
  by (simp add: frustum_def ring_q_def)






lemma cap_stack_hd: "hd (cap_stack p) = (body_radius p, 0)"
  by (simp add: cap_stack_def)











subsubsection \<open>What a change of height or diameter leaves alone\<close>

lemma resize_nut_width:
  "nut_width (p\<lparr>knob_height := h\<rparr>) = nut_width p"
  "nut_width (p\<lparr>knob_diameter := d\<rparr>) = nut_width p"
  by (simp_all add: nut_width_def)

lemma resize_nut_top:
  "nut_top (p\<lparr>knob_height := h\<rparr>) = nut_top p"
  "nut_top (p\<lparr>knob_diameter := d\<rparr>) = nut_top p"
  by (simp_all add: nut_top_def)

lemma resize_is_open:
  "is_open (p\<lparr>knob_height := h\<rparr>) = is_open p"
  "is_open (p\<lparr>knob_diameter := d\<rparr>) = is_open p"
  by (simp_all add: is_open_def)

lemma resize_shaft_profile:
  "shaft_profile (p\<lparr>knob_height := h\<rparr>) = shaft_profile p"
  "shaft_profile (p\<lparr>knob_diameter := d\<rparr>) = shaft_profile p"
  by (simp_all add: shaft_profile_def)

lemma resize_nut_pocket:
  "nut_pocket (p\<lparr>knob_height := h\<rparr>) = nut_pocket p"
  "nut_pocket (p\<lparr>knob_diameter := d\<rparr>) = nut_pocket p"
  by (rule ext, simp add: nut_pocket_def resize_nut_width Let_def cong: if_cong)+

lemma resize_bore_z_bot:
  "bore_z_bot (p\<lparr>knob_height := h\<rparr>) = bore_z_bot p"
  "bore_z_bot (p\<lparr>knob_diameter := d\<rparr>) = bore_z_bot p"
  by (simp_all add: bore_z_bot_def)

lemma resize_shaft_bore:
  "shaft_bore (p\<lparr>knob_height := h\<rparr>) = shaft_bore p"
  "shaft_bore (p\<lparr>knob_diameter := d\<rparr>) = shaft_bore p"
  by (rule ext, rule ext, simp add: shaft_bore_def resize_bore_z_bot resize_shaft_profile
      bore_z_top_def Let_def cong: if_cong)+

lemma resize_pocket_vol:
  "pocket_vol (p\<lparr>knob_height := h\<rparr>) = pocket_vol p"
  "pocket_vol (p\<lparr>knob_diameter := d\<rparr>) = pocket_vol p"
  by (simp_all add: pocket_vol_def resize_nut_pocket)

lemma resize_bore_vol:
  "bore_vol (p\<lparr>knob_height := h\<rparr>) = bore_vol p"
  "bore_vol (p\<lparr>knob_diameter := d\<rparr>) = bore_vol p"
  by (rule ext, simp add: bore_vol_def resize_shaft_bore)+

lemma resize_dish_loop_stack:
  "dish_loop_stack (p\<lparr>knob_height := h\<rparr>) z hr ss = dish_loop_stack p z hr ss"
  "dish_loop_stack (p\<lparr>knob_diameter := d\<rparr>) z hr ss = dish_loop_stack p z hr ss"
  by (induction ss) (simp_all add: Let_def)

lemma resize_dish_stack:
  "dish_stack (p\<lparr>knob_height := h\<rparr>) = dish_stack p"
  "dish_stack (p\<lparr>knob_diameter := d\<rparr>) = dish_stack p"
  by (rule ext, simp add: dish_stack_def resize_dish_loop_stack dish_hole_r_def)+

lemma resize_dish_final:
  "dish_final (p\<lparr>knob_height := h\<rparr>) = dish_final p"
  "dish_final (p\<lparr>knob_diameter := d\<rparr>) = dish_final p"
  by (rule ext, simp add: dish_final_def resize_dish_stack)+

lemma resize_opening_radius:
  "opening_radius (p\<lparr>knob_height := h\<rparr>) = opening_radius p"
  "opening_radius (p\<lparr>knob_diameter := d\<rparr>) = opening_radius p"
  by (rule ext, simp add: opening_radius_def resize_nut_top resize_nut_width)+

lemma resize_top_rest:
  "top_rest (p\<lparr>knob_height := h\<rparr>) = top_rest p"
  "top_rest (p\<lparr>knob_diameter := d\<rparr>) = top_rest p"
  by (rule ext, simp add: top_rest_def resize_dish_stack resize_dish_final resize_is_open
      resize_opening_radius)+


lemma resize_bore_q:
  "bore_q (p\<lparr>knob_height := h\<rparr>) = bore_q p"
  "bore_q (p\<lparr>knob_diameter := d\<rparr>) = bore_q p"
  by (simp_all add: bore_q_def resize_shaft_profile)

lemma resize_cavity_ready:
  "cavity_ready (p\<lparr>knob_height := h\<rparr>) = cavity_ready p"
  "cavity_ready (p\<lparr>knob_diameter := d\<rparr>) = cavity_ready p"
  by (simp_all add: cavity_ready_def lid_ready_def resize_nut_top resize_nut_width
      resize_nut_pocket resize_bore_z_bot)

lemma resize_z_base:
  "z_base (p\<lparr>knob_height := h\<rparr>) = z_base p"
  "z_base (p\<lparr>knob_diameter := d\<rparr>) = z_base p"
  by (simp_all add: z_base_def)

lemma resize_current_z:
  "current_z (p\<lparr>knob_height := h\<rparr>) = current_z p"
  "current_z (p\<lparr>knob_diameter := d\<rparr>) = current_z p"
  by (simp_all add: current_z_def has_bottom_fillet_def resize_z_base)

lemma resize_boss_stack:
  "boss_stack (p\<lparr>knob_height := h\<rparr>) = boss_stack p"
  "boss_stack (p\<lparr>knob_diameter := d\<rparr>) = boss_stack p"
  by (simp_all add: boss_stack_def)

lemma resize_top_limit:
  "\<not> is_dome p \<Longrightarrow> top_limit (p\<lparr>knob_height := h\<rparr>) z = top_limit p z"
  "top_limit (p\<lparr>knob_diameter := d\<rparr>) z = top_limit p z"
  by (auto simp: top_limit_def resize_dish_final resize_is_open initial_shaft_top_limit_def
      is_open_def resize_z_base Let_def cong: if_cong)






subsubsection \<open>The volume as a function of the height\<close>



subsubsection \<open>The dome as a stack of frusta\<close>

lemma pair_sum_scaled:
  "pair_sum N (\<lambda>i. a * \<alpha> i) (\<lambda>i. b * \<beta> i) = a * b * pair_sum N \<alpha> \<beta>"
proof -
  have "pair_sum N (\<lambda>i. a * \<alpha> i) (\<lambda>i. b * \<beta> i)
      = (\<Sum>i\<leftarrow>[0..<N]. a * b * (\<alpha> i * \<beta> ((i + 1) mod N)))"
    unfolding pair_sum_def by (rule sum_list_cong_upt) simp
  then show ?thesis unfolding pair_sum_def by (simp only: sum_list_const_mult)
qed











subsubsection \<open>Ring stacks under a change of diameter\<close>

lemma pair_sum_mono:
  assumes "\<And>i. i < N \<Longrightarrow> 0 \<le> \<alpha> i \<and> \<alpha> i \<le> \<alpha>' i"
    and "\<And>i. i < N \<Longrightarrow> 0 \<le> \<beta> i \<and> \<beta> i \<le> \<beta>' i"
  shows "pair_sum N \<alpha> \<beta> \<le> pair_sum N \<alpha>' \<beta>'"
  unfolding pair_sum_def
proof (rule sum_list_mono)
  fix i assume "i \<in> set [0..<N]"
  then have i: "i < N" "(i + 1) mod N < N" by simp_all
  show "\<alpha> i * \<beta> ((i + 1) mod N) \<le> \<alpha>' i * \<beta>' ((i + 1) mod N)"
    using assms(1)[OF i(1)] assms(2)[OF i(2)] by (intro mult_mono) auto
qed


lemma step_sin_nonneg: "0 \<le> step_sin N"
  unfolding step_sin_def by (rule sin_step_nonneg)




lemma lobed_radius_shape:
  "lobed_radius d l pr t = d / 2 * (1 - 0.3 * pr * (1 - cos (l * t)))"
  unfolding lobed_radius_def by (simp add: field_simps)

lemma body_radius_shape: "body_radius p i = knob_diameter p / 2 * body_shape p i"
  by (simp add: body_radius_def body_shape_def lobed_radius_shape)

lemma narrow_le_shape: "narrow p \<le> body_shape p i"
proof -
  have c: "0 \<le> 1 - cos x" "1 - cos x \<le> 2" for x :: real
    using cos_le_one[of x] cos_ge_minus_one[of x] by simp_all
  have l: "min 1 (1 - 0.6 * a) \<le> 1 - 0.3 * a * t" if "0 \<le> t" "t \<le> 2" for a t :: real
  proof (cases "0 \<le> a")
    case True
    then have "a * t \<le> a * 2" using that by (intro mult_left_mono) simp_all
    then show ?thesis by simp
  next
    case False
    then have "a * t \<le> 0" using that by (simp add: mult_nonpos_nonneg)
    then show ?thesis by simp
  qed
  show ?thesis
    using l[OF c, of "lobe_protrusion p" "lobes p * sample_angle i (segments p)"]
      l[OF c, of "0.05" "ridges p * sample_angle i (segments p)"]
    by (simp add: narrow_def body_shape_def)
qed







lemma shell_stack_core: "shell_stack p = boss_stack p @ core_stack p"
  by (simp add: shell_stack_def core_stack_def)

lemma bottom_stack_hd: "\<exists>c cs. bottom_stack p = c # cs \<and> snd c = z_base p"
proof (cases "has_bottom_fillet p")
  case True
  have "[0..<7] = 0 # [1..<7]" by (simp add: upt_conv_Cons)
  then show ?thesis using True by (simp add: bottom_stack_def)
next
  case False
  then show ?thesis by (simp add: bottom_stack_def)
qed

lemma shell_frusta_split:
  "frusta_sum (segments p) (shell_stack p)
     = frusta_sum (segments p) (boss_stack p) + frusta_sum (segments p) (core_stack p)"
proof -
  from bottom_stack_hd[of p] obtain c cs where c: "core_stack p = c # cs" "snd c = z_base p"
    by (auto simp: core_stack_def)
  show ?thesis
  proof (cases "boss_height p > 0.1")
    case True
    then have b: "boss_stack p \<noteq> []" "snd (last (boss_stack p)) = z_base p"
      by (simp_all add: boss_stack_def z_base_def)
    show ?thesis unfolding shell_stack_core frusta_sum_append[OF b(1)] c(1)
      using b(2) c(2) by simp
  next
    case False
    then show ?thesis by (simp add: shell_stack_core boss_stack_def)
  qed
qed

lemma diameter_fillet_start: "z_fillet_start (p\<lparr>knob_diameter := d\<rparr>) = z_fillet_start p"
  by (simp add: z_fillet_start_def resize_current_z z_top_abs_def resize_z_base)

lemma diameter_dome_height: "dome_height (p\<lparr>knob_diameter := d\<rparr>) = dome_height p"
  by (simp add: dome_height_def diameter_fillet_start z_top_abs_def resize_z_base)




lemma diameter_has_bottom_fillet:
  "has_bottom_fillet (p\<lparr>knob_diameter := d\<rparr>) = has_bottom_fillet p"
  by (simp add: has_bottom_fillet_def)

lemma core_stack_heights:
  "map snd (core_stack (p\<lparr>knob_diameter := d\<rparr>)) = map snd (core_stack p)"
  by (simp add: core_stack_def bottom_stack_def top_stack_def diameter_has_bottom_fillet
      resize_z_base diameter_fillet_start diameter_dome_height o_def)

lemma core_stack_nonempty: "core_stack p \<noteq> []"
  by (simp add: core_stack_def)

lemma diameter_lid_z: "lid_z (p\<lparr>knob_diameter := d\<rparr>) = lid_z p"
proof -
  have "lid_z q = last (map snd (core_stack q))" for q
    by (simp add: lid_z_def shell_stack_core core_stack_nonempty last_map)
  then show ?thesis by (simp only: core_stack_heights)
qed








subsubsection \<open>Knobs that meet the margin\<close>


lemma ring_q_const: "ring_q N (\<lambda>i. r) = real N * step_sin N * r\<^sup>2"
  by (simp add: ring_q_def pair_sum_def sum_list_triv power2_eq_square)

lemma step_sin_4: "step_sin 4 = 1"
proof -
  have "2 * pi / real 4 = pi / 2" by simp
  then show ?thesis unfolding step_sin_def by (simp only: sin_pi_half)
qed

lemma pair_sum_nonneg:
  assumes "\<And>i. i < N \<Longrightarrow> 0 \<le> \<alpha> i"
  shows "0 \<le> pair_sum N \<alpha> \<alpha>"
  unfolding pair_sum_def
  by (rule sum_list_nonneg) (auto simp: assms)

lemma body_radius_narrow:
  assumes "0 \<le> knob_diameter p" "0 \<le> narrow p"
  shows "0 \<le> knob_diameter p / 2 * narrow p"
    and "knob_diameter p / 2 * narrow p \<le> body_radius p i"
  using assms narrow_le_shape[of p i]
  by (simp_all add: body_radius_shape mult_left_mono)

lemma body_q_nonneg:
  assumes "0 \<le> narrow p"
  shows "0 \<le> body_q p"
proof -
  have s: "0 \<le> body_shape p i" for i using narrow_le_shape[of p i] assms by simp
  have "body_radius p = (\<lambda>i. knob_diameter p / 2 * body_shape p i)"
    by (rule ext) (rule body_radius_shape)
  then have "pair_sum (segments p) (body_radius p) (body_radius p)
      = knob_diameter p / 2 * (knob_diameter p / 2)
          * pair_sum (segments p) (body_shape p) (body_shape p)"
    by (simp only: pair_sum_scaled)
  moreover have "0 \<le> pair_sum (segments p) (body_shape p) (body_shape p)"
    by (rule pair_sum_nonneg) (rule s)
  moreover have "0 \<le> knob_diameter p / 2 * (knob_diameter p / 2)" by simp
  ultimately have "0 \<le> pair_sum (segments p) (body_radius p) (body_radius p)"
    by (simp only: mult_nonneg_nonneg)
  then show ?thesis
    unfolding body_q_def ring_q_def using step_sin_nonneg[of "segments p"]
    by (rule mult_nonneg_nonneg[rotated])
qed

lemma body_q_lower:
  assumes "0 \<le> knob_diameter p" "0 \<le> narrow p"
  shows "real (segments p) * step_sin (segments p) * (knob_diameter p / 2 * narrow p)\<^sup>2
           \<le> body_q p"
proof -
  have "pair_sum (segments p) (\<lambda>i. knob_diameter p / 2 * narrow p)
          (\<lambda>i. knob_diameter p / 2 * narrow p)
      \<le> pair_sum (segments p) (body_radius p) (body_radius p)"
    by (rule pair_sum_mono) (use body_radius_narrow[OF assms] in auto)
  then have "ring_q (segments p) (\<lambda>i. knob_diameter p / 2 * narrow p) \<le> body_q p"
    unfolding body_q_def ring_q_def using step_sin_nonneg[of "segments p"]
    by (rule mult_left_mono)
  then show ?thesis by (simp only: ring_q_const)
qed

lemma dome_fill_nonneg: "0 \<le> dome_fill"
proof -
  have "0 \<le> dome_profile s" for s by (simp add: dome_profile_def)
  then have "0 \<le> (\<Sum>s\<leftarrow>[0..<12]. (dome_profile s)\<^sup>2 + dome_profile s * dome_profile (s + 1)
                                 + (dome_profile (s + 1))\<^sup>2)"
    by (intro sum_list_nonneg) auto
  then show ?thesis by (simp add: dome_fill_def)
qed

text \<open>A blind hole under a dome or under a flat lid: any body whose radii are not negative.\<close>

lemma closed_top_margin:
  assumes "\<not> through_hole p" "is_dome p \<or> (\<not> recess_depth p > 0 \<and> \<not> nut_top p)"
    and "0 \<le> narrow p"
  shows "height_margin p"
proof -
  have o: "opening_q p = 0"
    using assms(1,2) by (auto simp: opening_q_def is_open_def nut_top_def)
  have b: "bore_q p = 0" using assms(1) by (simp add: bore_q_def)
  have "0 \<le> fill_factor p" using dome_fill_nonneg by (simp add: fill_factor_def)
  then have "0 \<le> 3 * fill_factor p * body_q p"
    using body_q_nonneg[OF assms(3)] by simp
  then show ?thesis by (simp add: height_margin_def o b)
qed

text \<open>A blind finger dish: the dish ends within \<open>0.001\<close> of the axis.\<close>

lemma dish_loop_stack_blind:
  assumes "ss \<noteq> []" "last ss = 5"
  shows "\<exists>r. fst (last (dish_loop_stack p z 0 ss)) = (\<lambda>i. r) \<and> 0 \<le> r \<and> r \<le> 0.001"
  using assms
proof (induction ss)
  case Nil
  then show ?case by simp
next
  case (Cons s ss)
  define r where "r = (if recess_diameter p / 2 * (1 - real s / 5) < 0 then 0
                       else recess_diameter p / 2 * (1 - real s / 5))"
  define zc where "zc = z - recess_depth p * (1 - (1 - real s / 5)\<^sup>2)"
  have r0: "0 \<le> r" by (simp add: r_def)
  have step: "dish_loop_stack p z 0 (s # ss)
      = (if r \<le> 0.001 then [(\<lambda>i. r, zc)] else (\<lambda>i. r, zc) # dish_loop_stack p z 0 ss)"
    by (simp add: Let_def r_def zc_def)
  show ?case
  proof (cases "r \<le> 0.001")
    case True
    then show ?thesis unfolding step using r0 by auto
  next
    case False
    have ne: "ss \<noteq> []"
    proof
      assume "ss = []"
      then have "s = 5" using Cons.prems(2) by simp
      then have "r = 0" by (simp add: r_def)
      then show False using False by simp
    qed
    then have l: "last ss = 5" using Cons.prems(2) by simp
    have ne': "dish_loop_stack p z 0 ss \<noteq> []"
      using ne by (cases ss) (simp_all add: Let_def)
    from Cons.IH[OF ne l] show ?thesis unfolding step using False ne' by simp
  qed
qed

lemma dish_final_blind:
  assumes "\<not> through_hole p"
  shows "\<exists>r. fst (dish_final p z) = (\<lambda>i. r) \<and> 0 \<le> r \<and> r \<le> 0.001"
proof -
  have ne: "dish_loop_stack p z 0 [1, 2, 3, 4, 5] \<noteq> []" by (simp add: Let_def)
  have "\<exists>r. fst (last (dish_loop_stack p z 0 [1, 2, 3, 4, 5])) = (\<lambda>i. r) \<and> 0 \<le> r \<and> r \<le> 0.001"
    by (rule dish_loop_stack_blind) simp_all
  then show ?thesis
    using ne assms unfolding dish_final_def dish_stack_def dish_hole_r_def upt_1_6 by simp
qed

lemma blind_dish_margin:
  assumes "\<not> through_hole p" "\<not> is_dome p" "recess_depth p > 0"
    and "0 \<le> narrow p" "0.002 \<le> knob_diameter p * narrow p"
  shows "height_margin p"
proof -
  let ?N = "segments p" and ?m = "knob_diameter p / 2 * narrow p"
  have d: "0 \<le> knob_diameter p"
  proof (rule ccontr)
    assume "\<not> 0 \<le> knob_diameter p"
    then have "knob_diameter p * narrow p \<le> 0"
      using assms(4) by (simp add: mult_nonpos_nonneg)
    then show False using assms(5) by simp
  qed
  have m: "0.001 \<le> ?m" using assms(5) by simp
  have c: "0 \<le> real ?N * step_sin ?N" using step_sin_nonneg[of ?N] by simp
  from dish_final_blind[OF assms(1), of 0] obtain r where
    r: "fst (dish_final p 0) = (\<lambda>i. r)" "0 \<le> r" "r \<le> 0.001" by blast
  have "r\<^sup>2 \<le> ?m\<^sup>2" using r(2,3) m by (intro power_mono) simp_all
  then have q: "real ?N * step_sin ?N * r\<^sup>2 \<le> real ?N * step_sin ?N * ?m\<^sup>2"
    using c by (rule mult_left_mono)
  have z: "0 \<le> real ?N * step_sin ?N * r\<^sup>2" using c by simp
  have "opening_q p = 0 \<or> opening_q p = real ?N * step_sin ?N * r\<^sup>2"
    using assms(2,3) by (auto simp: opening_q_def r(1) ring_q_const)
  then have o: "opening_q p \<le> real ?N * step_sin ?N * ?m\<^sup>2" using q z by auto
  have b: "bore_q p = 0" using assms(1) by (simp add: bore_q_def)
  have "opening_q p \<le> body_q p" using o body_q_lower[OF d assms(4)] by simp
  moreover have "0 \<le> body_q p" by (rule body_q_nonneg[OF assms(4)])
  ultimately show ?thesis
    using assms(2) by (simp add: height_margin_def fill_factor_def b)
qed


text \<open>The through hole wider than the body does not meet the margin.\<close>

lemma wide_bore_no_margin: "\<not> height_margin (wide_bore_example h)"
proof -
  let ?p = "wide_bore_example h"
  have br: "body_radius ?p = (\<lambda>i. 5)"
    by (rule ext) (simp add: body_radius_def wide_bore_example_def default_params_def)
  have orad: "opening_radius ?p = (\<lambda>i. 15 / 2)"
    by (rule ext)
      (simp add: opening_radius_def nut_top_def wide_bore_example_def default_params_def)
  have sp: "shaft_profile ?p = create_circle_profile 15 4"
    by (simp add: shaft_profile_def wide_bore_example_def default_params_def)
  have f: "segments ?p = 4" "\<not> is_dome ?p" "\<not> recess_depth ?p > 0" "through_hole ?p"
    by (simp_all add: wide_bore_example_def default_params_def)
  have a: "profile_area2 4 (create_circle_profile 15 4) = 225"
    using step_sin_4 unfolding circle_area2 step_sin_def by (simp add: power2_eq_square)
  show ?thesis
    unfolding height_margin_def opening_q_def bore_q_def body_q_def fill_factor_def
      br orad sp ring_q_const
    using f a by (simp add: is_open_def step_sin_4 power2_eq_square)
qed




lemma knob_volume_diameter:
  "knob_volume (p\<lparr>knob_diameter := d\<rparr>)
     = frusta_sum (segments p) (boss_stack p)
       + frusta_sum (segments p) (core_stack (p\<lparr>knob_diameter := d\<rparr>))
       + top_rest p (lid_z p) + pocket_vol p + bore_vol p (top_limit p (lid_z p))"
  using shell_frusta_split[of "p\<lparr>knob_diameter := d\<rparr>"]
  by (simp add: knob_volume_def resize_boss_stack resize_top_rest diameter_lid_z
      resize_pocket_vol resize_bore_vol resize_top_limit(2))

text \<open>
  Below diameter zero the volume falls as the diameter grows: the plain knob on four
  segments has a larger volume at diameter \<open>-10\<close> than at diameter 0.
\<close>

lemma plain_core_frusta:
  "frusta_sum 4 (core_stack ((plain_example 4)\<lparr>knob_diameter := d\<rparr>)) = 15 / 2 * d\<^sup>2"
proof -
  let ?p = "(plain_example 4)\<lparr>knob_diameter := d\<rparr>"
  have br: "body_radius ?p = (\<lambda>i. d / 2)"
    by (rule ext) (simp add: body_radius_def plain_example_def default_params_def)
  have f: "\<not> has_bottom_fillet ?p" "\<not> is_dome ?p" "top_fillet_radius ?p = 0"
    "top_fillet_height ?p = 0" "z_fillet_start ?p = 15" "z_base ?p = 0"
    by (simp_all add: has_bottom_fillet_def z_fillet_start_def current_z_def z_base_def
        z_top_abs_def plain_example_def default_params_def)
  have "core_stack ?p = [(\<lambda>i. d / 2, 0), (\<lambda>i. d / 2, 15)]"
    by (simp add: core_stack_def bottom_stack_def top_stack_def f br)
  then show ?thesis
    by (simp add: frustum_same ring_q_const step_sin_4 power2_eq_square)
qed

lemma negative_diameter_volume:
  "\<exists>v1 v2. mesh_volume ((plain_example 4)\<lparr>knob_diameter := - 10\<rparr>) = Inr v1
      \<and> mesh_volume ((plain_example 4)\<lparr>knob_diameter := 0\<rparr>) = Inr v2 \<and> v2 < v1"
proof -
  have r: "cavity_ready (plain_example 4)"
    by (simp add: plain_example_def default_params_def cavity_ready_def lid_ready_def
        nut_top_def nut_pocket_def bore_z_bot_def)
  have N: "segments (plain_example 4) = 4" by (simp add: plain_example_def)
  have v: "mesh_volume ((plain_example 4)\<lparr>knob_diameter := d\<rparr>)
      = Inr (knob_volume ((plain_example 4)\<lparr>knob_diameter := d\<rparr>))" for d
    by (rule mesh_volume_formula) (simp_all add: N resize_cavity_ready r)
  have "knob_volume ((plain_example 4)\<lparr>knob_diameter := 0\<rparr>)
      < knob_volume ((plain_example 4)\<lparr>knob_diameter := - 10\<rparr>)"
    unfolding knob_volume_diameter N plain_core_frusta by simp
  then show ?thesis unfolding v by simp
qed



end
